theory Spec2Isabelle
  imports Main "HOL-Library.AList"
begin

section \<open>JavaScript values\<close>

text \<open>
  The program is one React module, \<^verbatim>\<open>src/App.js\<close>. Its data are plain JavaScript
  objects, arrays and strings, kept in component state and mirrored as JSON text in
  \<^verbatim>\<open>localStorage\<close>. A JavaScript string is modelled as a \<^typ>\<open>string\<close> whose
  characters are code units below 256.

  An exception of the source is a value of \<open>js_error\<close>. \<open>Unmodelled\<close> is not an exception:
  a function returns it where JavaScript leaves what this embedding can represent (an
  array with holes, a string with a code unit above 255).
\<close>

datatype js_error = SyntaxError | TypeError | Unmodelled

text \<open>
  What \<^verbatim>\<open>JSON.parse\<close> can return and \<^verbatim>\<open>JSON.stringify\<close> can write. An object is the
  list of its own properties in the order in which JavaScript enumerates them. A number
  is kept as its literal: the double it denotes is not computed.
\<close>

datatype json =
    JNull
  | JBool bool
  | JNumber string
  | JString string
  | JArray "json list"
  | JObject "(string \<times> json) list"

subsection \<open>Decimal numerals\<close>

definition is_digit :: "char \<Rightarrow> bool" where
  "is_digit c = (48 \<le> (of_char c :: nat) \<and> (of_char c :: nat) \<le> 57)"

definition digit_value :: "char \<Rightarrow> nat" where
  "digit_value c = of_char c - 48"

definition digit_char :: "nat \<Rightarrow> char" where
  "digit_char d = ''0123456789'' ! d"

text \<open>The value of a string of decimal digits, most significant digit first.\<close>

definition decimal_value :: "string \<Rightarrow> nat" where
  "decimal_value s = foldl (\<lambda>acc c. 10 * acc + digit_value c) 0 s"

text \<open>Number to string, as a template literal \<^verbatim>\<open>`${n}`\<close> converts a non-negative integer.\<close>

fun decimal :: "nat \<Rightarrow> string" where
  "decimal n = (if n < 10 then [digit_char n] else decimal (n div 10) @ [digit_char (n mod 10)])"

declare decimal.simps [simp del]

subsection \<open>Property order of an object\<close>

text \<open>
  An ordinary object enumerates its array-index keys first, in ascending numeric order,
  and then its other string keys in the order of their creation. An array index is the
  canonical decimal numeral of an integer from 0 to \<open>2^32 - 2\<close>.
\<close>

definition is_array_index :: "string \<Rightarrow> bool" where
  "is_array_index k =
     (k \<noteq> [] \<and> list_all is_digit k \<and> (k = ''0'' \<or> hd k \<noteq> CHR ''0'')
      \<and> decimal_value k < 4294967295)"

definition key_before :: "string \<Rightarrow> string \<Rightarrow> bool" where
  "key_before a b =
     (if is_array_index a then \<not> is_array_index b \<or> decimal_value a < decimal_value b
      else \<not> is_array_index b)"

definition property_order :: "string list \<Rightarrow> bool" where
  "property_order ks = (distinct ks \<and> sorted_wrt key_before ks)"

text \<open>Where a new array-index key of value \<open>n\<close> goes among the existing properties.\<close>

fun insert_index :: "nat \<Rightarrow> string \<times> 'v \<Rightarrow> (string \<times> 'v) list \<Rightarrow> (string \<times> 'v) list" where
  "insert_index n p [] = [p]"
| "insert_index n p (q # qs) =
     (if is_array_index (fst q) \<and> decimal_value (fst q) < n then q # insert_index n p qs
      else p # q # qs)"

text \<open>
  Defining property \<open>k\<close> with value \<open>v\<close>: an existing property keeps its place and takes
  the new value, a new one is placed by the enumeration order.
\<close>

definition js_put :: "string \<Rightarrow> 'v \<Rightarrow> (string \<times> 'v) list \<Rightarrow> (string \<times> 'v) list" where
  "js_put k v ps =
     (if k \<in> fst ` set ps then AList.update k v ps
      else if is_array_index k then insert_index (decimal_value k) (k, v) ps
      else ps @ [(k, v)])"

text \<open>Reading a property: \<open>None\<close> is \<^verbatim>\<open>undefined\<close>.\<close>

definition js_get :: "(string \<times> 'v) list \<Rightarrow> string \<Rightarrow> 'v option" where
  "js_get ps k = map_of ps k"

text \<open>The object that results from defining the given members one after the other.\<close>

definition object_of_members :: "(string \<times> 'v) list \<Rightarrow> (string \<times> 'v) list" where
  "object_of_members kvs = foldl (\<lambda>ps (k, v). js_put k v ps) [] kvs"

subsection \<open>Writing JSON text\<close>

text \<open>
  \<^verbatim>\<open>JSON.stringify\<close> with one argument. In a string the quotation mark, the backslash
  and the control characters are escaped, the five with a short form by it and the
  others as \<^verbatim>\<open>\u00xx\<close> with lower-case digits; every other character is written as it is.
\<close>

definition hex_digit :: "nat \<Rightarrow> char" where
  "hex_digit d = ''0123456789abcdef'' ! d"

definition quote_char :: "char \<Rightarrow> string" where
  "quote_char c =
     (if c = CHR 0x08 then [CHR 0x5C, CHR ''b'']
      else if c = CHR 0x09 then [CHR 0x5C, CHR ''t'']
      else if c = CHR 0x0A then [CHR 0x5C, CHR ''n'']
      else if c = CHR 0x0C then [CHR 0x5C, CHR ''f'']
      else if c = CHR 0x0D then [CHR 0x5C, CHR ''r'']
      else if c = CHR 0x22 then [CHR 0x5C, CHR 0x22]
      else if c = CHR 0x5C then [CHR 0x5C, CHR 0x5C]
      else if (of_char c :: nat) < 32 then
        [CHR 0x5C, CHR ''u'', CHR ''0'', CHR ''0'', hex_digit (of_char c div 16), hex_digit (of_char c mod 16)]
      else [c])"

definition quote :: "string \<Rightarrow> string" where
  "quote s = CHR 0x22 # concat (map quote_char s) @ [CHR 0x22]"

text \<open>
  Arrays and objects are written without white space, the members of an object in its
  property order.
\<close>

fun join_commas :: "string list \<Rightarrow> string" where
  "join_commas [] = []"
| "join_commas [x] = x"
| "join_commas (x # y # ys) = x @ CHR '','' # join_commas (y # ys)"

fun JSON_stringify :: "json \<Rightarrow> string" where
  "JSON_stringify JNull = ''null''"
| "JSON_stringify (JBool b) = (if b then ''true'' else ''false'')"
| "JSON_stringify (JNumber l) = l"
| "JSON_stringify (JString s) = quote s"
| "JSON_stringify (JArray vs) = ''['' @ join_commas (map JSON_stringify vs) @ '']''"
| "JSON_stringify (JObject kvs) =
     ''{'' @ join_commas (map (\<lambda>(k, v). quote k @ '':'' @ JSON_stringify v) kvs) @ ''}''"

text \<open>
  The values whose text reads back as the same value: every object in property order,
  and no number (a number is written in a canonical form that its literal need not have).
  Everything the program stores is of this kind: strings, booleans, arrays and objects.
\<close>

fun storable :: "json \<Rightarrow> bool" where
  "storable JNull = True"
| "storable (JBool b) = True"
| "storable (JNumber l) = False"
| "storable (JString s) = True"
| "storable (JArray vs) = (\<forall>v \<in> set vs. storable v)"
| "storable (JObject kvs) = (property_order (map fst kvs) \<and> (\<forall>(k, v) \<in> set kvs. storable v))"

subsection \<open>Reading JSON text\<close>

text \<open>
  \<^verbatim>\<open>JSON.parse\<close> with one argument, as a recursive-descent parser that returns the value
  read and the rest of the text. \<open>Malformed\<close> is the \<open>SyntaxError\<close> of JavaScript.
  \<open>Beyond_Latin1\<close> marks a \<^verbatim>\<open>\uxxxx\<close> escape for a code unit above 255, which a
  \<^typ>\<open>char\<close> cannot hold. \<open>Exhausted\<close> says that the fuel of the parser ran out; with the
  length of the text as fuel it never does (lemma \<open>JSON_parse_fuel\<close> below).
\<close>

datatype parse_error = Malformed | Exhausted | Beyond_Latin1

definition is_ws :: "char \<Rightarrow> bool" where
  "is_ws c = (c = CHR 0x20 \<or> c = CHR 0x09 \<or> c = CHR 0x0A \<or> c = CHR 0x0D)"

definition skip_ws :: "string \<Rightarrow> string" where
  "skip_ws s = dropWhile is_ws s"

text \<open>
  The characters of a string literal after its opening quotation mark, up to the closing
  one. A control character must be escaped.
\<close>

definition hex_value :: "char \<Rightarrow> nat option" where
  "hex_value c =
     (let n = (of_char c :: nat) in
      if 48 \<le> n \<and> n \<le> 57 then Some (n - 48)
      else if 97 \<le> n \<and> n \<le> 102 then Some (n - 87)
      else if 65 \<le> n \<and> n \<le> 70 then Some (n - 55)
      else None)"

definition hex4 :: "char \<Rightarrow> char \<Rightarrow> char \<Rightarrow> char \<Rightarrow> nat option" where
  "hex4 a b c d =
     (case (hex_value a, hex_value b, hex_value c, hex_value d) of
        (Some x, Some y, Some z, Some w) \<Rightarrow> Some (4096 * x + 256 * y + 16 * z + w)
      | _ \<Rightarrow> None)"

definition unescape :: "char \<Rightarrow> char option" where
  "unescape e =
     (if e = CHR 0x22 then Some (CHR 0x22)
      else if e = CHR 0x5C then Some (CHR 0x5C)
      else if e = CHR ''/'' then Some (CHR ''/'')
      else if e = CHR ''b'' then Some (CHR 0x08)
      else if e = CHR ''f'' then Some (CHR 0x0C)
      else if e = CHR ''n'' then Some (CHR 0x0A)
      else if e = CHR ''r'' then Some (CHR 0x0D)
      else if e = CHR ''t'' then Some (CHR 0x09)
      else None)"

definition cons_char :: "char \<Rightarrow> parse_error + string \<times> string \<Rightarrow> parse_error + string \<times> string" where
  "cons_char c r = (case r of Inl e \<Rightarrow> Inl e | Inr (s, rest) \<Rightarrow> Inr (c # s, rest))"

fun parse_chars :: "string \<Rightarrow> parse_error + string \<times> string" where
  "parse_chars [] = Inl Malformed"
| "parse_chars (c # cs) =
     (if c = CHR 0x22 then Inr ([], cs)
      else if c = CHR 0x5C then
        (case cs of
           [] \<Rightarrow> Inl Malformed
         | e # r \<Rightarrow>
             if e = CHR ''u'' then
               (case r of
                  h1 # h2 # h3 # h4 # r' \<Rightarrow>
                    (case hex4 h1 h2 h3 h4 of
                       None \<Rightarrow> Inl Malformed
                     | Some n \<Rightarrow>
                         if n < 256 then cons_char (char_of n) (parse_chars r')
                         else Inl Beyond_Latin1)
                | _ \<Rightarrow> Inl Malformed)
             else
               (case unescape e of
                  None \<Rightarrow> Inl Malformed
                | Some d \<Rightarrow> cons_char d (parse_chars r)))
      else if (of_char c :: nat) < 32 then Inl Malformed
      else cons_char c (parse_chars cs))"

text \<open>
  The literals \<^verbatim>\<open>null\<close>, \<^verbatim>\<open>true\<close>, \<^verbatim>\<open>false\<close> and the number literals: an optional minus, an
  integer part without a leading zero, an optional fraction, an optional exponent.
\<close>

definition strip_prefix :: "string \<Rightarrow> string \<Rightarrow> string option" where
  "strip_prefix p s = (if take (length p) s = p then Some (drop (length p) s) else None)"

definition scan_digits :: "string \<Rightarrow> (string \<times> string) option" where
  "scan_digits s =
     (if takeWhile is_digit s = [] then None
      else Some (takeWhile is_digit s, dropWhile is_digit s))"

definition scan_int :: "string \<Rightarrow> (string \<times> string) option" where
  "scan_int s =
     (case s of
        [] \<Rightarrow> None
      | c # r \<Rightarrow>
          if c = CHR ''0'' then Some (''0'', r)
          else if is_digit c then Some (c # takeWhile is_digit r, dropWhile is_digit r)
          else None)"

definition scan_frac :: "string \<Rightarrow> (string \<times> string) option" where
  "scan_frac s =
     (case s of
        [] \<Rightarrow> Some ([], s)
      | c # r \<Rightarrow>
          if c = CHR ''.'' then
            (case scan_digits r of None \<Rightarrow> None | Some (ds, r') \<Rightarrow> Some (c # ds, r'))
          else Some ([], s))"

definition scan_sign :: "string \<Rightarrow> string \<times> string" where
  "scan_sign s =
     (case s of
        [] \<Rightarrow> ([], s)
      | c # r \<Rightarrow> if c = CHR ''+'' \<or> c = CHR ''-'' then ([c], r) else ([], s))"

definition scan_exp :: "string \<Rightarrow> (string \<times> string) option" where
  "scan_exp s =
     (case s of
        [] \<Rightarrow> Some ([], s)
      | c # r \<Rightarrow>
          if c = CHR ''e'' \<or> c = CHR ''E'' then
            (case scan_sign r of
               (sg, r') \<Rightarrow>
                 (case scan_digits r' of None \<Rightarrow> None | Some (ds, r'') \<Rightarrow> Some (c # sg @ ds, r'')))
          else Some ([], s))"

definition scan_minus :: "string \<Rightarrow> string \<times> string" where
  "scan_minus s =
     (case s of
        [] \<Rightarrow> ([], s)
      | c # r \<Rightarrow> if c = CHR ''-'' then ([c], r) else ([], s))"

definition scan_number :: "string \<Rightarrow> (string \<times> string) option" where
  "scan_number s =
     (case scan_minus s of
        (sg, s1) \<Rightarrow>
          (case scan_int s1 of
             None \<Rightarrow> None
           | Some (ip, s2) \<Rightarrow>
               (case scan_frac s2 of
                  None \<Rightarrow> None
                | Some (fp, s3) \<Rightarrow>
                    (case scan_exp s3 of
                       None \<Rightarrow> None
                     | Some (ep, s4) \<Rightarrow> Some (sg @ ip @ fp @ ep, s4)))))"

text \<open>
  Values, the elements of a non-empty array after its opening bracket, and the members of
  a non-empty object after its opening brace. The fuel \<open>n\<close> bounds the nesting and the
  number of elements still to come. The members of an object are defined one after the
  other, so a repeated key keeps its first place and its last value.
\<close>

fun parse_value :: "nat \<Rightarrow> string \<Rightarrow> parse_error + json \<times> string"
  and parse_elements :: "nat \<Rightarrow> string \<Rightarrow> parse_error + json list \<times> string"
  and parse_members :: "nat \<Rightarrow> string \<Rightarrow> parse_error + (string \<times> json) list \<times> string"
where
  "parse_value n s =
     (case skip_ws s of
        [] \<Rightarrow> Inl Malformed
      | c # r \<Rightarrow>
          if c = CHR 0x22 then
            (case parse_chars r of
               Inl e \<Rightarrow> Inl e
             | Inr (str, r') \<Rightarrow> Inr (JString str, r'))
          else if c = CHR ''['' then
            (case skip_ws r of
               [] \<Rightarrow> Inl Malformed
             | d # r' \<Rightarrow>
                 if d = CHR '']'' then Inr (JArray [], r')
                 else
                   (case n of
                      0 \<Rightarrow> Inl Exhausted
                    | Suc m \<Rightarrow>
                        (case parse_elements m r of
                           Inl e \<Rightarrow> Inl e
                         | Inr (vs, r'') \<Rightarrow> Inr (JArray vs, r''))))
          else if c = CHR ''{'' then
            (case skip_ws r of
               [] \<Rightarrow> Inl Malformed
             | d # r' \<Rightarrow>
                 if d = CHR ''}'' then Inr (JObject [], r')
                 else
                   (case n of
                      0 \<Rightarrow> Inl Exhausted
                    | Suc m \<Rightarrow>
                        (case parse_members m r of
                           Inl e \<Rightarrow> Inl e
                         | Inr (kvs, r'') \<Rightarrow> Inr (JObject (object_of_members kvs), r''))))
          else
            (case strip_prefix ''null'' (c # r) of
               Some r' \<Rightarrow> Inr (JNull, r')
             | None \<Rightarrow>
                 (case strip_prefix ''true'' (c # r) of
                    Some r' \<Rightarrow> Inr (JBool True, r')
                  | None \<Rightarrow>
                      (case strip_prefix ''false'' (c # r) of
                         Some r' \<Rightarrow> Inr (JBool False, r')
                       | None \<Rightarrow>
                           (case scan_number (c # r) of
                              Some (l, r') \<Rightarrow> Inr (JNumber l, r')
                            | None \<Rightarrow> Inl Malformed)))))"
| "parse_elements n s =
     (case parse_value n s of
        Inl e \<Rightarrow> Inl e
      | Inr (v, r) \<Rightarrow>
          (case skip_ws r of
             [] \<Rightarrow> Inl Malformed
           | c # r' \<Rightarrow>
               if c = CHR '']'' then Inr ([v], r')
               else if c = CHR '','' then
                 (case n of
                    0 \<Rightarrow> Inl Exhausted
                  | Suc m \<Rightarrow>
                      (case parse_elements m r' of
                         Inl e \<Rightarrow> Inl e
                       | Inr (vs, r'') \<Rightarrow> Inr (v # vs, r'')))
               else Inl Malformed))"
| "parse_members n s =
     (case skip_ws s of
        [] \<Rightarrow> Inl Malformed
      | q # s1 \<Rightarrow>
          if q \<noteq> CHR 0x22 then Inl Malformed
          else
            (case parse_chars s1 of
               Inl e \<Rightarrow> Inl e
             | Inr (k, s2) \<Rightarrow>
                 (case skip_ws s2 of
                    [] \<Rightarrow> Inl Malformed
                  | col # s3 \<Rightarrow>
                      if col \<noteq> CHR '':'' then Inl Malformed
                      else
                        (case parse_value n s3 of
                           Inl e \<Rightarrow> Inl e
                         | Inr (v, r) \<Rightarrow>
                             (case skip_ws r of
                                [] \<Rightarrow> Inl Malformed
                              | c # r' \<Rightarrow>
                                  if c = CHR ''}'' then Inr ([(k, v)], r')
                                  else if c = CHR '','' then
                                    (case n of
                                       0 \<Rightarrow> Inl Exhausted
                                     | Suc m \<Rightarrow>
                                         (case parse_members m r' of
                                            Inl e \<Rightarrow> Inl e
                                          | Inr (kvs, r'') \<Rightarrow> Inr ((k, v) # kvs, r'')))
                                  else Inl Malformed)))))"

declare parse_value.simps [simp del] parse_elements.simps [simp del] parse_members.simps [simp del]

text \<open>
  The whole text must be one value, with white space around it at most.
\<close>

definition JSON_parse :: "string \<Rightarrow> js_error + json" where
  "JSON_parse s =
     (case parse_value (length s) s of
        Inl Malformed \<Rightarrow> Inl SyntaxError
      | Inl _ \<Rightarrow> Inl Unmodelled
      | Inr (v, r) \<Rightarrow> if skip_ws r = [] then Inr v else Inl SyntaxError)"

section \<open>The data model\<close>

text \<open>
  A field, a section and a template are object literals with fixed properties
  (\<^verbatim>\<open>App.js\<close> lines 87, 114 and 111 to 115). \<open>options\<close> is absent until the field
  editor writes it.
\<close>

record Field =
  field_id :: string
  field_type :: string
  field_label :: string
  field_options :: "string list option"

record Section =
  section_id :: string
  section_title :: string
  section_fields :: "Field list"

record Template =
  template_id :: string
  template_name :: string
  template_sections :: "Section list"

definition FIELD_TYPES :: "string list" where
  "FIELD_TYPES = [''label'', ''text'', ''number'', ''boolean'', ''enum'']"

subsection \<open>Arrays\<close>

text \<open>
  \<^verbatim>\<open>xs[i] = v\<close> on a copy of the array: in range it replaces the element, at the length
  it appends, beyond the length JavaScript leaves holes, which a list cannot hold.
\<close>

definition array_assign :: "'a list \<Rightarrow> nat \<Rightarrow> 'a \<Rightarrow> js_error + 'a list" where
  "array_assign xs i v =
     (if i < length xs then Inr (xs[i := v])
      else if i = length xs then Inr (xs @ [v])
      else Inl Unmodelled)"

text \<open>
  \<^verbatim>\<open>xs.splice(start, count)\<close> with no inserted items, on a copy: the elements from
  \<open>start\<close> up to \<open>start + count\<close> are removed, as many as there are.
\<close>

definition Array_splice :: "'a list \<Rightarrow> nat \<Rightarrow> nat \<Rightarrow> 'a list" where
  "Array_splice xs start count = take start xs @ drop (start + count) xs"

text \<open>\<^verbatim>\<open>s.split(",")\<close>: the empty string gives one empty piece.\<close>

fun split_commas :: "string \<Rightarrow> string list" where
  "split_commas [] = [[]]"
| "split_commas (c # cs) =
     (if c = CHR '','' then [] # split_commas cs
      else (case split_commas cs of
              [] \<Rightarrow> [[c]]
            | x # xs \<Rightarrow> (c # x) # xs))"

section \<open>Field editor\<close>

text \<open>
  Each control of \<^verbatim>\<open>FieldEditor\<close> hands a replacement field to \<open>onChange\<close>: the spread
  \<^verbatim>\<open>{ ...field, type: v }\<close> copies every property and sets one (lines 21, 34, 42).
\<close>

definition FieldEditor_setType :: "string \<Rightarrow> Field \<Rightarrow> Field" where
  "FieldEditor_setType v f = f\<lparr>field_type := v\<rparr>"

definition FieldEditor_setLabel :: "string \<Rightarrow> Field \<Rightarrow> Field" where
  "FieldEditor_setLabel v f = f\<lparr>field_label := v\<rparr>"

definition FieldEditor_setOptions :: "string \<Rightarrow> Field \<Rightarrow> Field" where
  "FieldEditor_setOptions v f = f\<lparr>field_options := Some (split_commas v)\<rparr>"

section \<open>Section editor\<close>

text \<open>
  The handlers of \<^verbatim>\<open>Section\<close> (lines 54 to 93). Each returns the section it hands to
  \<open>onChange\<close>. The identifier of a new field is the result of the call \<^verbatim>\<open>uuid()\<close>, an
  argument of \<open>addField\<close>.
\<close>

definition updateField :: "nat \<Rightarrow> Field \<Rightarrow> Section \<Rightarrow> js_error + Section" where
  "updateField index updated section =
     (case array_assign (section_fields section) index updated of
        Inl e \<Rightarrow> Inl e
      | Inr updatedFields \<Rightarrow> Inr (section\<lparr>section_fields := updatedFields\<rparr>))"

definition deleteField :: "nat \<Rightarrow> Section \<Rightarrow> Section" where
  "deleteField index section =
     section\<lparr>section_fields := Array_splice (section_fields section) index 1\<rparr>"

definition setTitle :: "string \<Rightarrow> Section \<Rightarrow> Section" where
  "setTitle v section = section\<lparr>section_title := v\<rparr>"

definition addField :: "string \<Rightarrow> Section \<Rightarrow> Section" where
  "addField u section =
     section\<lparr>section_fields :=
       section_fields section
         @ [\<lparr>field_id = u, field_type = ''text'', field_label = [], field_options = None\<rparr>]\<rparr>"

subsection \<open>Generated identifiers\<close>

text \<open>
  Modelled from the spec: the function \<^verbatim>\<open>uuid\<close> of the package imported on line 2, whose
  code is not part of the source. The spec has every identifier ``generated'' and
  ``unique'' (a field is appended ``with a fresh unique identifier''): a call returns an
  identifier that no earlier call has returned. The generator is the number of calls made
  so far, the identifier it returns is the numeral of that number, and \<open>issued g\<close> are the
  identifiers returned before the generator reached \<open>g\<close>.
\<close>

definition uuid :: "nat \<Rightarrow> string \<times> nat" where
  "uuid g = (decimal g, Suc g)"

definition issued :: "nat \<Rightarrow> string set" where
  "issued g = set (map (\<lambda>k. fst (uuid k)) [0..<g])"

text \<open>
  The ``Add Field'' button, lines 80 to 93: one call of \<^verbatim>\<open>uuid()\<close> gives the identifier of
  the field that \<open>addField\<close> appends.
\<close>

definition onClick_AddField :: "Section \<Rightarrow> nat \<Rightarrow> Section \<times> nat" where
  "onClick_AddField section g = (case uuid g of (u, g') \<Rightarrow> (addField u section, g'))"

subsection \<open>Events of a section editor\<close>

text \<open>
  What the user can do in one section editor (lines 64 to 94): press ``Add Field'', press
  ``Delete'' in the field editor at a position, change the type, the label or the options
  in the field editor at a position (line 76 hands the replacement field to
  \<open>updateField\<close>), type a title. Between two of these, \<^verbatim>\<open>uuid()\<close> may be called for another
  section or template. A field editor is on the page for the positions below the number
  of fields only; an event of one that is not there leaves the section as it is.
\<close>

datatype field_edit = SetType string | SetLabel string | SetOptions string

definition edit_field :: "field_edit \<Rightarrow> Field \<Rightarrow> Field" where
  "edit_field e f =
     (case e of
        SetType v \<Rightarrow> FieldEditor_setType v f
      | SetLabel v \<Rightarrow> FieldEditor_setLabel v f
      | SetOptions v \<Rightarrow> FieldEditor_setOptions v f)"

datatype section_event =
    AddField_click
  | Delete_click nat
  | Field_change nat field_edit
  | Title_change string
  | Uuid_elsewhere

definition section_step :: "section_event \<Rightarrow> Section \<times> nat \<Rightarrow> Section \<times> nat" where
  "section_step e p =
     (case p of
        (section, g) \<Rightarrow>
          (case e of
             AddField_click \<Rightarrow> onClick_AddField section g
           | Delete_click i \<Rightarrow>
               if i < length (section_fields section) then (deleteField i section, g)
               else (section, g)
           | Field_change i c \<Rightarrow>
               if i < length (section_fields section) then
                 (case updateField i (edit_field c (section_fields section ! i)) section of
                    Inl err \<Rightarrow> (section, g)
                  | Inr section' \<Rightarrow> (section', g))
               else (section, g)
           | Title_change v \<Rightarrow> (setTitle v section, g)
           | Uuid_elsewhere \<Rightarrow> (section, snd (uuid g))))"

fun section_run :: "section_event list \<Rightarrow> Section \<times> nat \<Rightarrow> Section \<times> nat" where
  "section_run [] p = p"
| "section_run (e # es) p = section_run es (section_step e p)"

section \<open>Template builder\<close>

text \<open>
  The state of \<^verbatim>\<open>TemplateBuilder\<close>: the two \<open>useState\<close> cells. A handler reads the
  values of the current render and sets new ones; \<open>currentTemplate = None\<close> is \<open>null\<close>.
\<close>

record Builder =
  templates :: "Template list"
  currentTemplate :: "Template option"

text \<open>
  The state of the builder on a first visit: the storage has no key \<open>templates\<close>, the
  initializer of lines 99 to 102 returns the empty array, and nothing is selected.
\<close>

definition first_visit :: Builder where
  "first_visit = \<lparr>templates = [], currentTemplate = None\<rparr>"

definition createTemplate :: "string \<Rightarrow> string \<Rightarrow> Builder \<Rightarrow> Builder" where
  "createTemplate u1 u2 b =
     (if length (templates b) \<ge> 5 then b
      else
        (let newTemplate =
               \<lparr>template_id = u1,
                template_name = ''Template '' @ decimal (length (templates b) + 1),
                template_sections =
                  [\<lparr>section_id = u2, section_title = ''Section 1'', section_fields = []\<rparr>]\<rparr>
         in \<lparr>templates = templates b @ [newTemplate], currentTemplate = Some newTemplate\<rparr>))"

text \<open>
  Both setters of lines 123 to 128 and 163 to 173, given the new section array. Reading
  \<open>currentTemplate.sections\<close> of \<open>null\<close> throws a \<open>TypeError\<close>.
\<close>

definition setSections :: "Section list \<Rightarrow> Template \<Rightarrow> Builder \<Rightarrow> Builder" where
  "setSections updatedSections cur b =
     \<lparr>templates =
        map (\<lambda>t. if template_id t = template_id cur
                 then t\<lparr>template_sections := updatedSections\<rparr> else t)
          (templates b),
      currentTemplate = Some (cur\<lparr>template_sections := updatedSections\<rparr>)\<rparr>"

definition updateSection :: "nat \<Rightarrow> Section \<Rightarrow> Builder \<Rightarrow> js_error + Builder" where
  "updateSection index updated b =
     (case currentTemplate b of
        None \<Rightarrow> Inl TypeError
      | Some cur \<Rightarrow>
          (case array_assign (template_sections cur) index updated of
             Inl e \<Rightarrow> Inl e
           | Inr updatedSections \<Rightarrow> Inr (setSections updatedSections cur b)))"

definition addSection :: "string \<Rightarrow> Builder \<Rightarrow> js_error + Builder" where
  "addSection u b =
     (case currentTemplate b of
        None \<Rightarrow> Inl TypeError
      | Some cur \<Rightarrow>
          (let newSection = \<lparr>section_id = u, section_title = [], section_fields = []\<rparr>;
               updatedSections = template_sections cur @ [newSection]
           in Inr (setSections updatedSections cur b)))"

definition selectTemplate :: "Template \<Rightarrow> Builder \<Rightarrow> Builder" where
  "selectTemplate t b = b\<lparr>currentTemplate := Some t\<rparr>"

subsection \<open>Events of the builder page\<close>

text \<open>
  What the user can do on the page the builder renders (lines 131 to 181): press
  ``Create New Template'', press the button of the template at a position, change the
  section at a position (every control of a section editor ends in \<open>updateSection\<close>), press
  ``Add Section''. A section editor and ``Add Section'' are on the page only while a
  template is selected. An event whose control is not on the page leaves the state as it
  is.
\<close>

datatype event =
    CreateTemplate string string
  | SelectTemplate nat
  | ChangeSection nat Section
  | AddSection string

definition offered :: "Builder \<Rightarrow> event \<Rightarrow> bool" where
  "offered b e =
     (case e of
        CreateTemplate u1 u2 \<Rightarrow> True
      | SelectTemplate k \<Rightarrow> k < length (templates b)
      | ChangeSection i s \<Rightarrow>
          (case currentTemplate b of
             None \<Rightarrow> False
           | Some cur \<Rightarrow> i < length (template_sections cur))
      | AddSection u \<Rightarrow> currentTemplate b \<noteq> None)"

definition handle :: "event \<Rightarrow> Builder \<Rightarrow> js_error + Builder" where
  "handle e b =
     (case e of
        CreateTemplate u1 u2 \<Rightarrow> Inr (createTemplate u1 u2 b)
      | SelectTemplate k \<Rightarrow> Inr (selectTemplate (templates b ! k) b)
      | ChangeSection i s \<Rightarrow> updateSection i s b
      | AddSection u \<Rightarrow> addSection u b)"

definition dispatch :: "event \<Rightarrow> Builder \<Rightarrow> Builder" where
  "dispatch e b =
     (if offered b e then (case handle e b of Inl err \<Rightarrow> b | Inr b' \<Rightarrow> b') else b)"

fun run :: "event list \<Rightarrow> Builder \<Rightarrow> Builder" where
  "run [] b = b"
| "run (e # es) b = run es (dispatch e b)"

section \<open>Persistence\<close>

text \<open>
  \<^verbatim>\<open>localStorage\<close> maps keys to strings; \<open>getItem\<close> of a missing key is \<open>null\<close>, here
  \<open>None\<close>. The storage is taken to have room, so that \<open>setItem\<close> does not throw. A
  template set is written as the JSON text of its JavaScript value: a field, a section and
  a template are the objects of their literals, with the properties in the order of
  creation.
\<close>

type_synonym storage = "string \<rightharpoonup> string"

definition json_of_field :: "Field \<Rightarrow> json" where
  "json_of_field f =
     JObject ([(''id'', JString (field_id f)),
               (''type'', JString (field_type f)),
               (''label'', JString (field_label f))]
              @ (case field_options f of
                   None \<Rightarrow> []
                 | Some os \<Rightarrow> [(''options'', JArray (map JString os))]))"

definition json_of_section :: "Section \<Rightarrow> json" where
  "json_of_section s =
     JObject [(''id'', JString (section_id s)),
              (''title'', JString (section_title s)),
              (''fields'', JArray (map json_of_field (section_fields s)))]"

definition json_of_template :: "Template \<Rightarrow> json" where
  "json_of_template t =
     JObject [(''id'', JString (template_id t)),
              (''name'', JString (template_name t)),
              (''sections'', JArray (map json_of_section (template_sections t)))]"

definition json_of_templates :: "Template list \<Rightarrow> json" where
  "json_of_templates ts = JArray (map json_of_template ts)"

text \<open>The initializer of the \<open>templates\<close> state, lines 99 to 102: an empty string is falsy.\<close>

definition load_templates :: "storage \<Rightarrow> js_error + json" where
  "load_templates st =
     (case st ''templates'' of
        None \<Rightarrow> Inr (JArray [])
      | Some stored \<Rightarrow> if stored = [] then Inr (JArray []) else JSON_parse stored)"

text \<open>The effect of lines 105 to 107, run after every change of \<open>templates\<close>.\<close>

definition persist_templates :: "Template list \<Rightarrow> storage \<Rightarrow> storage" where
  "persist_templates ts st = st(''templates'' \<mapsto> JSON_stringify (json_of_templates ts))"

section \<open>Dynamic form\<close>

text \<open>
  The state of \<^verbatim>\<open>DynamicForm\<close> and what its handlers reach: the answers, the storage and
  the alerts shown so far.
\<close>

record Form =
  formData :: "(string \<times> json) list"
  localStorage :: storage
  alerts :: "string list"

text \<open>Line 188: a copy of the answers with the property \<open>fieldId\<close> set.\<close>

definition handleChange :: "string \<Rightarrow> json \<Rightarrow> Form \<Rightarrow> Form" where
  "handleChange fieldId v d = d\<lparr>formData := js_put fieldId v (formData d)\<rparr>"

definition form_key :: "Template \<Rightarrow> string" where
  "form_key template = ''form_data_'' @ template_id template"

text \<open>Line 193: \<open>null\<close> and the empty string are replaced by the text of an empty array.\<close>

definition read_submissions :: "storage \<Rightarrow> string \<Rightarrow> js_error + json" where
  "read_submissions st key =
     JSON_parse (case st key of
                   None \<Rightarrow> ''[]''
                 | Some stored \<Rightarrow> if stored = [] then ''[]'' else stored)"

text \<open>
  The spread \<^verbatim>\<open>...prev\<close> in an array literal: an array gives its elements, a string its
  characters, anything else is not iterable.
\<close>

definition spread :: "json \<Rightarrow> js_error + json list" where
  "spread v =
     (case v of
        JArray xs \<Rightarrow> Inr xs
      | JString s \<Rightarrow> Inr (map (\<lambda>c. JString [c]) s)
      | _ \<Rightarrow> Inl TypeError)"

definition handleSubmit :: "Template \<Rightarrow> Form \<Rightarrow> js_error + Form" where
  "handleSubmit template d =
     (let key = form_key template in
      case read_submissions (localStorage d) key of
        Inl e \<Rightarrow> Inl e
      | Inr prev \<Rightarrow>
          (case spread prev of
             Inl e \<Rightarrow> Inl e
           | Inr entries \<Rightarrow>
               Inr \<lparr>formData = [],
                    localStorage =
                      (localStorage d)(key \<mapsto> JSON_stringify (JArray (entries @ [JObject (formData d)]))),
                    alerts = alerts d @ [''Form submitted!'']\<rparr>))"

section \<open>Properties of the builder\<close>

lemma setSections_current:
  "currentTemplate (setSections us cur b) = Some (cur\<lparr>template_sections := us\<rparr>)"
  by (simp add: setSections_def)

lemma setSections_length:
  "length (templates (setSections us cur b)) = length (templates b)"
  by (simp add: setSections_def)

lemma setSections_nth:
  "k < length (templates b) \<Longrightarrow>
   templates (setSections us cur b) ! k =
     (if template_id (templates b ! k) = template_id cur
      then (templates b ! k)\<lparr>template_sections := us\<rparr> else templates b ! k)"
  by (simp add: setSections_def)

lemma setSections_member:
  assumes "cur \<in> set (templates b)"
  shows "cur\<lparr>template_sections := us\<rparr> \<in> set (templates (setSections us cur b))"
proof -
  let ?f = "\<lambda>t. if template_id t = template_id cur then t\<lparr>template_sections := us\<rparr> else t"
  from assms have "?f cur \<in> ?f ` set (templates b)"
    by (rule imageI)
  then show ?thesis
    by (simp add: setSections_def)
qed

lemma updateSection_in_range:
  "currentTemplate b = Some cur \<Longrightarrow> i < length (template_sections cur) \<Longrightarrow>
   updateSection i s b = Inr (setSections ((template_sections cur)[i := s]) cur b)"
  by (simp add: updateSection_def array_assign_def)

lemma addSection_selected:
  "currentTemplate b = Some cur \<Longrightarrow>
   addSection u b =
     Inr (setSections (template_sections cur
            @ [\<lparr>section_id = u, section_title = [], section_fields = []\<rparr>]) cur b)"
  by (simp add: addSection_def Let_def)

lemma createTemplate_length:
  "length (templates (createTemplate u1 u2 b)) =
     (if 5 \<le> length (templates b) then length (templates b) else Suc (length (templates b)))"
  by (simp add: createTemplate_def Let_def)

lemma dispatch_length_le:
  assumes "length (templates b) \<le> 5"
  shows "length (templates (dispatch e b)) \<le> 5"
proof (cases e)
  case (CreateTemplate u1 u2)
  then show ?thesis using assms
    by (simp add: dispatch_def offered_def handle_def createTemplate_length)
next
  case (SelectTemplate k)
  then show ?thesis using assms
    by (simp add: dispatch_def offered_def handle_def selectTemplate_def)
next
  case (ChangeSection i s)
  then show ?thesis using assms
    by (auto simp: dispatch_def offered_def handle_def updateSection_in_range setSections_length
        split: option.splits)
next
  case (AddSection u)
  then show ?thesis using assms
    by (auto simp: dispatch_def offered_def handle_def addSection_selected setSections_length)
qed

lemma run_length_le:
  "length (templates b) \<le> 5 \<Longrightarrow> length (templates (run es b)) \<le> 5"
  by (induction es arbitrary: b) (simp_all add: dispatch_length_le)

lemma dispatch_selected_member:
  assumes "\<forall>c. currentTemplate b = Some c \<longrightarrow> c \<in> set (templates b)"
  shows "\<forall>c. currentTemplate (dispatch e b) = Some c \<longrightarrow> c \<in> set (templates (dispatch e b))"
proof (cases e)
  case (CreateTemplate u1 u2)
  with assms show ?thesis
    by (simp add: dispatch_def offered_def handle_def createTemplate_def Let_def)
next
  case (SelectTemplate k)
  with assms show ?thesis
    by (simp add: dispatch_def offered_def handle_def selectTemplate_def)
next
  case (ChangeSection i s)
  with assms show ?thesis
    by (auto simp: dispatch_def offered_def handle_def updateSection_in_range
        setSections_current setSections_member split: option.splits)
next
  case (AddSection u)
  with assms show ?thesis
    by (auto simp: dispatch_def offered_def handle_def addSection_selected
        setSections_current setSections_member)
qed

lemma run_selected_member:
  "\<forall>c. currentTemplate b = Some c \<longrightarrow> c \<in> set (templates b) \<Longrightarrow>
   \<forall>c. currentTemplate (run es b) = Some c \<longrightarrow> c \<in> set (templates (run es b))"
proof (induction es arbitrary: b)
  case Nil
  then show ?case by simp
next
  case (Cons e es)
  from Cons.prems have "\<forall>c. currentTemplate (dispatch e b) = Some c \<longrightarrow>
      c \<in> set (templates (dispatch e b))"
    by (rule dispatch_selected_member)
  then show ?case
    using Cons.IH by simp
qed

section \<open>Properties of the section editor\<close>

lemma Array_splice_one_length:
  "i < length xs \<Longrightarrow> length (Array_splice xs i (Suc 0)) = length xs - 1"
  by (simp add: Array_splice_def)

lemma Array_splice_one_before:
  "j < i \<Longrightarrow> i < length xs \<Longrightarrow> Array_splice xs i (Suc 0) ! j = xs ! j"
  by (simp add: Array_splice_def nth_append)

lemma Array_splice_one_after:
  assumes "i \<le> j" and "j < length xs - 1"
  shows "Array_splice xs i (Suc 0) ! j = xs ! Suc j"
proof -
  from assms have "length (take i xs) = i" and "\<not> j < i" and "Suc i + (j - i) = Suc j"
    by simp_all
  then show ?thesis
    using assms by (simp add: Array_splice_def nth_append)
qed

lemma distinct_splice:
  assumes "distinct (map f xs)"
  shows "distinct (map f (Array_splice xs i (Suc 0)))"
proof -
  have "map f (Array_splice xs i (Suc 0)) = take i (map f xs) @ drop (Suc i) (map f xs)"
    by (simp add: Array_splice_def take_map drop_map)
  moreover from assms have "set (take i (map f xs)) \<inter> set (drop (Suc i) (map f xs)) = {}"
    by (intro set_take_disj_set_drop_if_distinct) simp_all
  ultimately show ?thesis
    using assms by (simp del: take_map drop_map)
qed

lemma set_splice: "set (Array_splice xs i n) \<subseteq> set xs"
  by (auto simp: Array_splice_def dest: in_set_takeD in_set_dropD)

lemma map_update_same_key:
  assumes "i < length xs" and "f y = f (xs ! i)"
  shows "map f (xs[i := y]) = map f xs"
proof -
  have "map f (xs[i := y]) = (map f xs)[i := f y]"
    by (rule map_update)
  also from assms have "\<dots> = (map f xs)[i := map f xs ! i]"
    by simp
  also have "\<dots> = map f xs"
    by (rule list_update_id)
  finally show ?thesis .
qed

section \<open>Properties of objects\<close>

lemma map_of_insert_index:
  "k \<notin> fst ` set ps \<Longrightarrow> map_of (insert_index n (k, v) ps) = (map_of ps)(k \<mapsto> v)"
proof (induction ps)
  case Nil
  show ?case by simp
next
  case (Cons q qs)
  then have "k \<noteq> fst q" and "k \<notin> fst ` set qs"
    by auto
  with Cons.IH show ?case
    by (cases q) (auto simp: fun_upd_twist)
qed

lemma map_of_snoc_fresh:
  "k \<notin> fst ` set ps \<Longrightarrow> map_of (ps @ [(k, v)]) = (map_of ps)(k \<mapsto> v)"
  by (induction ps) (auto simp: fun_upd_twist)

lemma map_of_js_put: "map_of (js_put k v ps) = (map_of ps)(k \<mapsto> v)"
  by (simp add: js_put_def update_conv' map_of_insert_index map_of_snoc_fresh del: map_of_append)

lemma insert_index_last:
  "\<forall>q \<in> set ps. is_array_index (fst q) \<and> decimal_value (fst q) < n \<Longrightarrow>
   insert_index n p ps = ps @ [p]"
  by (induction ps) simp_all

lemma js_put_last:
  assumes "property_order (map fst ps @ [k])"
  shows "js_put k v ps = ps @ [(k, v)]"
proof -
  from assms have fresh: "k \<notin> fst ` set ps"
    and before: "\<forall>a \<in> set (map fst ps). key_before a k"
    by (auto simp: property_order_def sorted_wrt_append)
  show ?thesis
  proof (cases "is_array_index k")
    case True
    with before have "\<forall>q \<in> set ps. is_array_index (fst q) \<and> decimal_value (fst q) < decimal_value k"
      by (auto simp: key_before_def split: if_splits)
    then have "insert_index (decimal_value k) (k, v) ps = ps @ [(k, v)]"
      by (rule insert_index_last)
    with True fresh show ?thesis
      by (simp add: js_put_def)
  next
    case False
    with fresh show ?thesis
      by (simp add: js_put_def)
  qed
qed

lemma property_order_butlast: "property_order (ks @ [k]) \<Longrightarrow> property_order ks"
  by (simp add: property_order_def sorted_wrt_append)

lemma object_of_members_ordered:
  "property_order (map fst kvs) \<Longrightarrow> object_of_members kvs = kvs"
proof (induction kvs rule: rev_induct)
  case Nil
  show ?case by (simp add: object_of_members_def)
next
  case (snoc p ps)
  obtain k v where p: "p = (k, v)"
    by (cases p)
  from snoc.prems p have ord: "property_order (map fst ps @ [k])"
    by simp
  then have "object_of_members ps = ps"
    using snoc.IH property_order_butlast by blast
  then have "object_of_members (ps @ [p]) = js_put k v ps"
    by (simp add: object_of_members_def p)
  with ord show ?case
    by (simp add: js_put_last p)
qed

subsection \<open>Defining a property keeps the property order\<close>

lemma decimal_value_snoc: "decimal_value (ks @ [c]) = 10 * decimal_value ks + digit_value c"
  by (simp add: decimal_value_def)

lemma digit_char_value:
  assumes "is_digit c"
  shows "digit_char (digit_value c) = c"
proof -
  define d where "d = (of_char c :: nat) - 48"
  from assms have "48 \<le> (of_char c :: nat)" and "(of_char c :: nat) \<le> 57"
    by (simp_all add: is_digit_def)
  then have d: "d < 10" "(of_char c :: nat) = 48 + d"
    unfolding d_def by linarith+
  then have "d = 0 \<or> d = 1 \<or> d = 2 \<or> d = 3 \<or> d = 4 \<or> d = 5 \<or> d = 6 \<or> d = 7
      \<or> d = 8 \<or> d = 9"
    by arith
  then have "(of_char (''0123456789'' ! d) :: nat) = 48 + d"
    by (elim disjE) simp_all
  with d(2) have "(of_char (''0123456789'' ! d) :: nat) = of_char c"
    by simp
  then have "''0123456789'' ! d = c"
    by (simp only: of_char_eq_iff)
  then show ?thesis
    by (simp add: digit_char_def digit_value_def d_def)
qed

lemma digit_value_less: "is_digit c \<Longrightarrow> digit_value c < 10"
  by (auto simp: is_digit_def digit_value_def)

lemma decimal_value_positive:
  assumes "ks \<noteq> []" and "list_all is_digit ks" and "hd ks \<noteq> CHR ''0''"
  shows "0 < decimal_value ks"
  using assms
proof (induction ks rule: rev_induct)
  case Nil
  then show ?case by simp
next
  case (snoc c ks)
  show ?case
  proof (cases ks)
    case Nil
    with snoc.prems have "is_digit c" "c \<noteq> CHR ''0''"
      by simp_all
    then have "(of_char c :: nat) \<noteq> of_char (CHR ''0'')"
      by (simp only: of_char_eq_iff not_False_eq_True)
    then have "of_char c \<noteq> (48 :: nat)"
      by simp
    with \<open>is_digit c\<close> have "0 < digit_value c"
      by (auto simp: is_digit_def digit_value_def)
    with Nil show ?thesis
      by (simp add: decimal_value_def)
  next
    case (Cons d ds)
    with snoc have "0 < decimal_value ks"
      by simp
    then show ?thesis
      by (simp add: decimal_value_snoc)
  qed
qed

lemma decimal_decimal_value:
  assumes "ks \<noteq> []" and "list_all is_digit ks" and "ks = ''0'' \<or> hd ks \<noteq> CHR ''0''"
  shows "decimal (decimal_value ks) = ks"
  using assms
proof (induction ks rule: rev_induct)
  case Nil
  then show ?case by simp
next
  case (snoc c ks)
  from snoc.prems have c: "is_digit c"
    by simp
  show ?case
  proof (cases ks)
    case Nil
    with c show ?thesis
      by (subst decimal.simps)
        (simp add: decimal_value_def digit_value_less digit_char_value)
  next
    case (Cons d ds)
    with snoc.prems have lead: "hd ks \<noteq> CHR ''0''" and digits: "list_all is_digit ks"
      by auto
    with Cons have pos: "0 < decimal_value ks"
      by (intro decimal_value_positive) simp_all
    from Cons lead digits have "decimal (decimal_value ks) = ks"
      by (intro snoc.IH) simp_all
    with pos c show ?thesis
      by (subst decimal.simps)
        (simp add: decimal_value_snoc digit_value_less digit_char_value)
  qed
qed

lemma array_index_canonical:
  assumes "is_array_index k"
  shows "decimal (decimal_value k) = k"
proof -
  from assms have "k \<noteq> []" and "list_all is_digit k" and "k = ''0'' \<or> hd k \<noteq> CHR ''0''"
    unfolding is_array_index_def by blast+
  then show ?thesis
    by (rule decimal_decimal_value)
qed

lemma array_index_value_inj:
  assumes "is_array_index a" and "is_array_index b" and "decimal_value a = decimal_value b"
  shows "a = b"
proof -
  have "a = decimal (decimal_value a)"
    using assms(1) by (rule array_index_canonical [symmetric])
  also have "\<dots> = decimal (decimal_value b)"
    by (simp only: assms(3))
  also have "\<dots> = b"
    using assms(2) by (rule array_index_canonical)
  finally show ?thesis .
qed

lemma keys_insert_index:
  "set (map fst (insert_index n (k, v) ps)) = insert k (set (map fst ps))"
  by (induction ps) auto

lemma distinct_insert_index:
  "k \<notin> set (map fst ps) \<Longrightarrow> distinct (map fst ps) \<Longrightarrow>
   distinct (map fst (insert_index n (k, v) ps))"
proof (induction ps)
  case Nil
  show ?case by simp
next
  case (Cons q qs)
  then have "fst q \<notin> set (map fst (insert_index n (k, v) qs))"
    unfolding keys_insert_index by auto
  with Cons show ?case
    by simp
qed

lemma key_before_index:
  assumes "is_array_index k" and "k \<noteq> a" and "\<not> (is_array_index a \<and> decimal_value a < decimal_value k)"
  shows "key_before k a"
proof (cases "is_array_index a")
  case True
  with assms have "decimal_value k \<noteq> decimal_value a"
    using array_index_value_inj by blast
  with True assms(1,3) show ?thesis
    by (simp add: key_before_def)
next
  case False
  with assms(1) show ?thesis
    by (simp add: key_before_def)
qed

lemma key_before_trans_index:
  "is_array_index k \<Longrightarrow> key_before k a \<Longrightarrow> key_before a b \<Longrightarrow> key_before k b"
  by (auto simp: key_before_def split: if_splits)

lemma sorted_insert_index:
  assumes "is_array_index k" and "k \<notin> set (map fst ps)"
    and "sorted_wrt key_before (map fst ps)"
  shows "sorted_wrt key_before (map fst (insert_index (decimal_value k) (k, v) ps))"
  using assms(2,3)
proof (induction ps)
  case Nil
  show ?case by simp
next
  case (Cons q qs)
  show ?case
  proof (cases "is_array_index (fst q) \<and> decimal_value (fst q) < decimal_value k")
    case True
    then have "key_before (fst q) k"
      by (simp add: key_before_def)
    moreover from Cons.prems have "\<forall>y \<in> set (map fst qs). key_before (fst q) y"
      by simp
    ultimately have "\<forall>y \<in> set (map fst (insert_index (decimal_value k) (k, v) qs)).
        key_before (fst q) y"
      unfolding keys_insert_index by simp
    moreover from Cons have
      "sorted_wrt key_before (map fst (insert_index (decimal_value k) (k, v) qs))"
      by simp
    ultimately show ?thesis
      using True by simp
  next
    case False
    from Cons.prems(1) have "k \<noteq> fst q"
      by auto
    with assms(1) False have first: "key_before k (fst q)"
      by (intro key_before_index) auto
    have "key_before k y" if "y \<in> set (map fst qs)" for y
    proof -
      from Cons.prems(2) that have "key_before (fst q) y"
        by auto
      with assms(1) first show ?thesis
        by (rule key_before_trans_index)
    qed
    with first Cons.prems(2) False show ?thesis
      by auto
  qed
qed

lemma property_order_js_put:
  assumes "property_order (map fst ps)"
  shows "property_order (map fst (js_put k v ps))"
proof (cases "k \<in> fst ` set ps")
  case True
  then have "map fst (js_put k v ps) = map fst ps"
    by (simp add: js_put_def update_keys)
  with assms show ?thesis
    by simp
next
  case fresh: False
  show ?thesis
  proof (cases "is_array_index k")
    case True
    with fresh assms show ?thesis
      by (simp add: js_put_def property_order_def distinct_insert_index sorted_insert_index)
  next
    case False
    then have "\<forall>a \<in> set (map fst ps). key_before a k"
      by (simp add: key_before_def)
    with fresh False assms show ?thesis
      by (simp add: js_put_def property_order_def sorted_wrt_append)
  qed
qed

lemma values_js_put: "snd ` set (js_put k v ps) \<subseteq> insert v (snd ` set ps)"
proof -
  have "snd ` set (AList.update k v ps) \<subseteq> insert v (snd ` set ps)"
    by (induction ps) auto
  moreover have "snd ` set (insert_index n (k, v) ps) \<subseteq> insert v (snd ` set ps)" for n
    by (induction ps) auto
  ultimately show ?thesis
    by (auto simp: js_put_def)
qed

section \<open>Properties of the generated identifiers\<close>

lemma digit_value_char:
  assumes "d < 10"
  shows "digit_value (digit_char d) = d"
proof -
  from assms have "d = 0 \<or> d = 1 \<or> d = 2 \<or> d = 3 \<or> d = 4 \<or> d = 5 \<or> d = 6 \<or> d = 7
      \<or> d = 8 \<or> d = 9"
    by arith
  then show ?thesis
    by (elim disjE) (simp_all add: digit_value_def digit_char_def)
qed

lemma decimal_value_decimal: "decimal_value (decimal n) = n"
proof (induction n rule: decimal.induct)
  case (1 n)
  show ?case
  proof (cases "n < 10")
    case True
    then show ?thesis
      by (subst decimal.simps) (simp add: decimal_value_def digit_value_char)
  next
    case False
    then have "decimal_value (decimal (n div 10)) = n div 10"
      by (rule "1.IH")
    with False show ?thesis
      by (subst decimal.simps) (simp add: decimal_value_snoc digit_value_char)
  qed
qed

lemma decimal_inj:
  assumes "decimal m = decimal n"
  shows "m = n"
proof -
  from assms have "decimal_value (decimal m) = decimal_value (decimal n)"
    by (rule arg_cong)
  then show ?thesis
    by (simp only: decimal_value_decimal)
qed

lemma uuid_inj: "fst (uuid g) = fst (uuid h) \<Longrightarrow> g = h"
  by (simp add: uuid_def decimal_inj)

lemma issued_iff: "u \<in> issued g \<longleftrightarrow> (\<exists>k < g. u = fst (uuid k))"
  by (auto simp: issued_def)

lemma uuid_fresh: "fst (uuid g) \<notin> issued g"
  using uuid_inj by (fastforce simp: issued_iff)

lemma issued_uuid: "issued (snd (uuid g)) = insert (fst (uuid g)) (issued g)"
  by (auto simp: issued_iff uuid_def less_Suc_eq)

lemma issued_mono: "issued g \<subseteq> issued (snd (uuid g))"
  by (auto simp: issued_uuid)

subsection \<open>The identifiers of the fields of a section\<close>

lemma edit_field_id: "field_id (edit_field c f) = field_id f"
  by (cases c)
    (simp_all add: edit_field_def FieldEditor_setType_def FieldEditor_setLabel_def
      FieldEditor_setOptions_def)

lemma onClick_AddField_fields:
  "section_fields (fst (onClick_AddField s g)) =
     section_fields s
       @ [\<lparr>field_id = fst (uuid g), field_type = ''text'', field_label = [],
           field_options = None\<rparr>]"
  by (simp add: onClick_AddField_def addField_def split: prod.splits)

lemma onClick_AddField_generator: "snd (onClick_AddField s g) = snd (uuid g)"
  by (simp add: onClick_AddField_def split: prod.splits)

lemma onClick_AddField_distinct:
  assumes "field_id ` set (section_fields s) \<subseteq> issued g"
    and "distinct (map field_id (section_fields s))"
  shows "distinct (map field_id (section_fields (fst (onClick_AddField s g))))"
proof -
  from assms(1) have "fst (uuid g) \<notin> field_id ` set (section_fields s)"
    using uuid_fresh [of g] by auto
  with assms(2) show ?thesis
    by (simp add: onClick_AddField_fields)
qed

lemma onClick_AddField_issued:
  assumes "field_id ` set (section_fields s) \<subseteq> issued g"
  shows "field_id ` set (section_fields (fst (onClick_AddField s g)))
    \<subseteq> issued (snd (onClick_AddField s g))"
  using assms by (auto simp: onClick_AddField_fields onClick_AddField_generator issued_uuid)

lemma section_step_ids:
  assumes "field_id ` set (section_fields (fst p)) \<subseteq> issued (snd p)"
    and "distinct (map field_id (section_fields (fst p)))"
  shows "field_id ` set (section_fields (fst (section_step e p))) \<subseteq> issued (snd (section_step e p))
    \<and> distinct (map field_id (section_fields (fst (section_step e p))))"
proof -
  obtain s g where p: "p = (s, g)"
    by (cases p)
  with assms have ids: "field_id ` set (section_fields s) \<subseteq> issued g"
    and dist: "distinct (map field_id (section_fields s))"
    by simp_all
  show ?thesis
  proof (cases e)
    case AddField_click
    with p ids dist show ?thesis
      by (simp add: section_step_def onClick_AddField_distinct onClick_AddField_issued)
  next
    case (Delete_click i)
    have "field_id ` set (Array_splice (section_fields s) i (Suc 0)) \<subseteq> issued g"
      using ids set_splice [of "section_fields s" i "Suc 0"] by auto
    with Delete_click p ids dist show ?thesis
      by (simp add: section_step_def deleteField_def distinct_splice)
  next
    case (Field_change i c)
    show ?thesis
    proof (cases "i < length (section_fields s)")
      case True
      let ?f = "edit_field c (section_fields s ! i)"
      from True have same: "map field_id ((section_fields s)[i := ?f]) = map field_id (section_fields s)"
        by (intro map_update_same_key) (simp_all add: edit_field_id)
      then have "set (map field_id ((section_fields s)[i := ?f])) = set (map field_id (section_fields s))"
        by simp
      then have "field_id ` set ((section_fields s)[i := ?f]) = field_id ` set (section_fields s)"
        by simp
      with True Field_change p ids dist same show ?thesis
        by (simp add: section_step_def updateField_def array_assign_def)
    next
      case False
      with Field_change p ids dist show ?thesis
        by (simp add: section_step_def)
    qed
  next
    case (Title_change v)
    with p ids dist show ?thesis
      by (simp add: section_step_def setTitle_def)
  next
    case Uuid_elsewhere
    with p ids dist show ?thesis
      using issued_mono [of g] by (auto simp: section_step_def)
  qed
qed

lemma section_run_ids:
  assumes "field_id ` set (section_fields (fst p)) \<subseteq> issued (snd p)"
    and "distinct (map field_id (section_fields (fst p)))"
  shows "field_id ` set (section_fields (fst (section_run es p))) \<subseteq> issued (snd (section_run es p))
    \<and> distinct (map field_id (section_fields (fst (section_run es p))))"
  using assms
proof (induction es arbitrary: p)
  case Nil
  then show ?case by simp
next
  case (Cons e es)
  from Cons.prems have "field_id ` set (section_fields (fst (section_step e p)))
      \<subseteq> issued (snd (section_step e p))
    \<and> distinct (map field_id (section_fields (fst (section_step e p))))"
    by (rule section_step_ids)
  then show ?case
    using Cons.IH [of "section_step e p"] by simp
qed

section \<open>Reading back what was written\<close>

subsection \<open>Strings\<close>

lemma hex_value_digit:
  assumes "d < 16"
  shows "hex_value (hex_digit d) = Some d"
proof -
  from assms have "d = 0 \<or> d = 1 \<or> d = 2 \<or> d = 3 \<or> d = 4 \<or> d = 5 \<or> d = 6 \<or> d = 7
      \<or> d = 8 \<or> d = 9 \<or> d = 10 \<or> d = 11 \<or> d = 12 \<or> d = 13 \<or> d = 14 \<or> d = 15"
    by arith
  then show ?thesis
    by (elim disjE) (simp_all add: hex_value_def hex_digit_def)
qed

lemma hex4_control:
  assumes "n < 32"
  shows "hex4 (CHR ''0'') (CHR ''0'') (hex_digit (n div 16)) (hex_digit (n mod 16)) = Some n"
proof -
  have "hex_value (CHR ''0'') = Some 0"
    by (simp add: hex_value_def)
  moreover have "hex_value (hex_digit (n div 16)) = Some (n div 16)"
    using assms by (intro hex_value_digit) simp
  moreover have "hex_value (hex_digit (n mod 16)) = Some (n mod 16)"
    by (intro hex_value_digit) simp
  ultimately show ?thesis
    by (simp add: hex4_def)
qed

lemma parse_chars_quote_char:
  "parse_chars (quote_char c @ t) = cons_char c (parse_chars t)"
proof (cases "(of_char c :: nat) < 32")
  case True
  then have n: "hex4 (CHR ''0'') (CHR ''0'') (hex_digit (of_char c div 16)) (hex_digit (of_char c mod 16))
      = Some (of_char c)"
    by (rule hex4_control)
  have lt: "(of_char c :: nat) < 256"
    using True by simp
  from True have ne: "c \<noteq> CHR 0x22" "c \<noteq> CHR 0x5C"
    by auto
  show ?thesis
    using n lt ne by (simp add: quote_char_def unescape_def)
next
  case False
  then have "c \<noteq> CHR 0x08" "c \<noteq> CHR 0x09" "c \<noteq> CHR 0x0A" "c \<noteq> CHR 0x0C" "c \<noteq> CHR 0x0D"
    by auto
  with False show ?thesis
    by (simp add: quote_char_def unescape_def)
qed

lemma parse_chars_quoted:
  "parse_chars (concat (map quote_char s) @ CHR 0x22 # rest) = Inr (s, rest)"
  by (induction s) (simp_all add: parse_chars_quote_char cons_char_def)

subsection \<open>Values\<close>

lemma stringify_head:
  "storable v \<Longrightarrow>
   \<exists>c t. JSON_stringify v = c # t \<and> \<not> is_ws c \<and> c \<noteq> CHR '']'' \<and> c \<noteq> CHR ''}''"
  by (cases v) (auto simp: is_ws_def quote_def)

lemma parse_value_quoted:
  "parse_value n (quote s @ rest) = Inr (JString s, rest)"
  by (simp add: parse_value.simps quote_def skip_ws_def is_ws_def parse_chars_quoted)

lemma parse_elements_join:
  assumes "vs \<noteq> []"
    and "\<And>v n rest. v \<in> set vs \<Longrightarrow> length (JSON_stringify v) \<le> n \<Longrightarrow>
          parse_value n (JSON_stringify v @ rest) = Inr (v, rest)"
    and "length (join_commas (map JSON_stringify vs)) \<le> m"
  shows "parse_elements m (join_commas (map JSON_stringify vs) @ CHR '']'' # rest) = Inr (vs, rest)"
  using assms
proof (induction vs arbitrary: m)
  case Nil
  then show ?case by simp
next
  case (Cons v vs)
  show ?case
  proof (cases vs)
    case Nil
    from Cons.prems(3) Nil have "length (JSON_stringify v) \<le> m"
      by simp
    then have "parse_value m (JSON_stringify v @ CHR '']'' # rest) = Inr (v, CHR '']'' # rest)"
      by (intro Cons.prems(2)) simp
    with Nil show ?thesis
      by (subst parse_elements.simps) (simp add: skip_ws_def is_ws_def)
  next
    case (Cons w ws)
    let ?tail = "join_commas (map JSON_stringify vs)"
    from Cons.prems(3) Cons
    have len: "length (JSON_stringify v) + 1 + length ?tail \<le> m"
      by simp
    then obtain m' where m: "m = Suc m'" and len': "length ?tail \<le> m'"
      by (cases m) simp_all
    have first: "parse_value m (JSON_stringify v @ CHR '','' # ?tail @ CHR '']'' # rest)
        = Inr (v, CHR '','' # ?tail @ CHR '']'' # rest)"
      using len by (intro Cons.prems(2)) simp_all
    have others: "parse_elements m' (?tail @ CHR '']'' # rest) = Inr (vs, rest)"
      using Cons len' Cons.prems(2) by (intro Cons.IH) simp_all
    show ?thesis
      by (subst parse_elements.simps)
        (use Cons first others m in \<open>simp add: skip_ws_def is_ws_def\<close>)
  qed
qed

lemma parse_members_join:
  assumes "kvs \<noteq> []"
    and "\<And>k v n rest. (k, v) \<in> set kvs \<Longrightarrow> length (JSON_stringify v) \<le> n \<Longrightarrow>
          parse_value n (JSON_stringify v @ rest) = Inr (v, rest)"
    and "length (join_commas (map (\<lambda>(k, v). quote k @ '':'' @ JSON_stringify v) kvs)) \<le> m"
  shows "parse_members m
           (join_commas (map (\<lambda>(k, v). quote k @ '':'' @ JSON_stringify v) kvs) @ CHR ''}'' # rest)
         = Inr (kvs, rest)"
  using assms
proof (induction kvs arbitrary: m)
  case Nil
  then show ?case by simp
next
  case (Cons p kvs)
  obtain k v where p: "p = (k, v)"
    by (cases p)
  have key: "\<And>t. parse_chars (concat (map quote_char k) @ CHR 0x22 # t) = Inr (k, t)"
    by (rule parse_chars_quoted)
  show ?case
  proof (cases kvs)
    case Nil
    from Cons.prems(3) Nil p have "length (JSON_stringify v) \<le> m"
      by simp
    then have "parse_value m (JSON_stringify v @ CHR ''}'' # rest) = Inr (v, CHR ''}'' # rest)"
      using p by (intro Cons.prems(2) [of k]) simp_all
    with Nil p key show ?thesis
      by (subst parse_members.simps) (simp add: skip_ws_def is_ws_def quote_def)
  next
    case (Cons q qs)
    let ?tail = "join_commas (map (\<lambda>(k, v). quote k @ '':'' @ JSON_stringify v) kvs)"
    from Cons.prems(3) Cons p
    have len: "length (JSON_stringify v) + 1 + length ?tail \<le> m"
      by simp
    then obtain m' where m: "m = Suc m'" and len': "length ?tail \<le> m'"
      by (cases m) simp_all
    have first: "parse_value m (JSON_stringify v @ CHR '','' # ?tail @ CHR ''}'' # rest)
        = Inr (v, CHR '','' # ?tail @ CHR ''}'' # rest)"
      using len p by (intro Cons.prems(2) [of k]) simp_all
    have others: "parse_members m' (?tail @ CHR ''}'' # rest) = Inr (kvs, rest)"
    proof (rule Cons.IH)
      show "kvs \<noteq> []"
        using Cons by simp
      show "length ?tail \<le> m'"
        by (rule len')
      fix k' v' n' rest'
      assume "(k', v') \<in> set kvs" and "length (JSON_stringify v') \<le> n'"
      then show "parse_value n' (JSON_stringify v' @ rest') = Inr (v', rest')"
        using Cons.prems(2) [of k' v' n' rest'] by simp
    qed
    show ?thesis
      by (subst parse_members.simps)
        (use Cons p key first others m in \<open>simp add: skip_ws_def is_ws_def quote_def\<close>)
  qed
qed

lemma parse_value_stringify:
  "storable v \<Longrightarrow> length (JSON_stringify v) \<le> n \<Longrightarrow>
   parse_value n (JSON_stringify v @ rest) = Inr (v, rest)"
proof (induction v arbitrary: n rest)
  case JNull
  show ?case
    by (simp add: parse_value.simps skip_ws_def is_ws_def strip_prefix_def)
next
  case (JBool b)
  show ?case
    by (cases b) (simp_all add: parse_value.simps skip_ws_def is_ws_def strip_prefix_def)
next
  case (JNumber l)
  then show ?case by simp
next
  case (JString s)
  show ?case
    using parse_value_quoted by simp
next
  case (JArray vs)
  show ?case
  proof (cases vs)
    case Nil
    then show ?thesis
      by (simp add: parse_value.simps skip_ws_def is_ws_def)
  next
    case (Cons w ws)
    let ?body = "join_commas (map JSON_stringify vs)"
    from JArray.prems(1) Cons have "storable w"
      by simp
    then obtain c t where head: "JSON_stringify w = c # t" "\<not> is_ws c" "c \<noteq> CHR '']''"
      using stringify_head by blast
    then obtain t' where body: "?body = c # t'"
      using Cons by (cases ws) simp_all
    from JArray.prems(2) obtain m where n: "n = Suc m" and len: "length ?body \<le> m"
      by (cases n) simp_all
    have "parse_elements m (?body @ CHR '']'' # rest) = Inr (vs, rest)"
    proof (rule parse_elements_join)
      show "vs \<noteq> []"
        using Cons by simp
      show "length ?body \<le> m"
        by (rule len)
      fix v n rest
      assume "v \<in> set vs" and "length (JSON_stringify v) \<le> n"
      then show "parse_value n (JSON_stringify v @ rest) = Inr (v, rest)"
        using JArray.IH JArray.prems(1) by simp
    qed
    then have "parse_elements m (c # t' @ CHR '']'' # rest) = Inr (vs, rest)"
      using body by simp
    then show ?thesis
      using head(2,3) n body
      by (subst parse_value.simps) (simp add: skip_ws_def is_ws_def)
  qed
next
  case (JObject kvs)
  from JObject.prems(1) have ord: "object_of_members kvs = kvs"
    by (simp add: object_of_members_ordered)
  show ?case
  proof (cases kvs)
    case Nil
    then show ?thesis
      by (simp add: parse_value.simps skip_ws_def is_ws_def)
  next
    case (Cons p ps)
    let ?member = "\<lambda>(k, v). quote k @ '':'' @ JSON_stringify v"
    let ?body = "join_commas (map ?member kvs)"
    obtain t' where body: "?body = CHR 0x22 # t'"
      using Cons by (cases p; cases ps) (simp_all add: quote_def)
    from JObject.prems(2) obtain m where n: "n = Suc m" and len: "length ?body \<le> m"
      by (cases n) simp_all
    have "parse_members m (?body @ CHR ''}'' # rest) = Inr (kvs, rest)"
    proof (rule parse_members_join)
      show "kvs \<noteq> []"
        using Cons by simp
      show "length ?body \<le> m"
        by (rule len)
      fix k v n rest
      assume "(k, v) \<in> set kvs" and "length (JSON_stringify v) \<le> n"
      then show "parse_value n (JSON_stringify v @ rest) = Inr (v, rest)"
        using JObject.IH [of "(k, v)" v] JObject.prems(1) by auto
    qed
    then have "parse_members m (CHR 0x22 # t' @ CHR ''}'' # rest) = Inr (kvs, rest)"
      using body by simp
    then show ?thesis
      using n body ord
      by (subst parse_value.simps) (simp add: skip_ws_def is_ws_def)
  qed
qed

lemma JSON_parse_stringify: "storable v \<Longrightarrow> JSON_parse (JSON_stringify v) = Inr v"
  using parse_value_stringify [of v "length (JSON_stringify v)" "[]"]
  by (simp add: JSON_parse_def skip_ws_def)

subsection \<open>The fuel of the parser is enough\<close>

lemma skip_ws_rest: "skip_ws s = c # r \<Longrightarrow> length r < length s"
proof -
  assume "skip_ws s = c # r"
  then have "length (c # r) \<le> length s"
    unfolding skip_ws_def by (metis length_dropWhile_le)
  then show ?thesis by simp
qed

lemma cons_char_rest:
  "cons_char c x = Inr (str, r) \<Longrightarrow> \<exists>str'. x = Inr (str', r)"
  by (auto simp: cons_char_def split: sum.splits)

lemma cons_char_error: "cons_char c x = Inl e \<Longrightarrow> x = Inl e"
  by (auto simp: cons_char_def split: sum.splits)

lemma parse_chars_rest: "parse_chars s = Inr (str, r) \<Longrightarrow> length r < length s"
proof (induction s arbitrary: str rule: parse_chars.induct)
  case 1
  then show ?case by simp
next
  case (2 c cs)
  show ?case
  proof (cases "c = CHR 0x22")
    case True
    with "2.prems" show ?thesis by simp
  next
    case quote: False
    show ?thesis
    proof (cases "c = CHR 0x5C")
      case False
      with quote "2.prems" obtain str' where "parse_chars cs = Inr (str', r)"
        by (auto split: if_splits dest: cons_char_rest)
      with quote False "2.prems" have "length r < length cs"
        by (intro "2.IH"(3)) (auto split: if_splits)
      then show ?thesis by simp
    next
      case True
      with quote "2.prems" obtain e t where cs: "cs = e # t"
        by (cases cs) auto
      show ?thesis
      proof (cases "e = CHR ''u''")
        case False
        with quote True cs "2.prems" obtain d str' where
          "unescape e = Some d" "parse_chars t = Inr (str', r)"
          by (auto split: option.splits dest: cons_char_rest)
        with quote True cs False have "length r < length t"
          by (intro "2.IH"(2)) auto
        with cs show ?thesis by simp
      next
        case u: True
        with quote True cs "2.prems" obtain h1 h2 h3 h4 t' n str' where
          t: "t = h1 # h2 # h3 # h4 # t'" and "hex4 h1 h2 h3 h4 = Some n" "n < 256"
          "parse_chars t' = Inr (str', r)"
          by (auto split: list.splits option.splits if_splits dest: cons_char_rest)
        with quote True cs u have "length r < length t'"
          by (intro "2.IH"(1)) auto
        with cs t show ?thesis by simp
      qed
    qed
  qed
qed

lemma parse_chars_not_exhausted: "parse_chars s \<noteq> Inl Exhausted"
proof (induction s rule: length_induct)
  case (1 s)
  then have IH: "\<And>t. parse_chars t = Inl Exhausted \<Longrightarrow> length s \<le> length t"
    by (meson not_le_imp_less)
  show ?case
  proof (cases s)
    case Nil
    then show ?thesis by simp
  next
    case (Cons c cs)
    show ?thesis
    proof
      assume "parse_chars s = Inl Exhausted"
      with Cons show False
        by (auto split: if_splits list.splits option.splits dest!: cons_char_error IH)
    qed
  qed
qed

lemma strip_prefix_rest: "strip_prefix p s = Some r \<Longrightarrow> length r \<le> length s"
  by (auto simp: strip_prefix_def split: if_splits)

lemma scan_digits_rest: "scan_digits s = Some (ds, r) \<Longrightarrow> length r \<le> length s"
  by (auto simp: scan_digits_def length_dropWhile_le split: if_splits)

lemma scan_int_rest: "scan_int s = Some (ds, r) \<Longrightarrow> length r \<le> length s"
  by (auto simp: scan_int_def length_dropWhile_le le_SucI split: list.splits if_splits)

lemma scan_frac_rest: "scan_frac s = Some (ds, r) \<Longrightarrow> length r \<le> length s"
  by (auto simp: scan_frac_def le_SucI split: list.splits if_splits option.splits
      dest!: scan_digits_rest)

lemma scan_sign_rest: "scan_sign s = (sg, r) \<Longrightarrow> length r \<le> length s"
  by (auto simp: scan_sign_def split: list.splits if_splits)

lemma scan_minus_rest: "scan_minus s = (sg, r) \<Longrightarrow> length r \<le> length s"
  by (auto simp: scan_minus_def split: list.splits if_splits)

lemma scan_exp_rest: "scan_exp s = Some (ds, r) \<Longrightarrow> length r \<le> length s"
  by (auto simp: scan_exp_def split: list.splits if_splits option.splits prod.splits
      dest!: scan_digits_rest scan_sign_rest)

lemma scan_number_rest: "scan_number s = Some (l, r) \<Longrightarrow> length r \<le> length s"
  by (auto simp: scan_number_def split: option.splits prod.splits
      dest!: scan_minus_rest scan_int_rest scan_frac_rest scan_exp_rest)

lemma parse_rest:
  "parse_value n s = Inr (v, r) \<Longrightarrow> length r \<le> length s"
  "parse_elements n s = Inr (vs, r) \<Longrightarrow> length r \<le> length s"
  "parse_members n s = Inr (kvs, r) \<Longrightarrow> length r \<le> length s"
proof (induction n s and n s and n s arbitrary: v r and vs r and kvs r
    rule: parse_value_parse_elements_parse_members.induct)
  case (1 n s)
  from "1.prems" obtain c t where c: "skip_ws s = c # t"
    by (subst (asm) parse_value.simps) (auto split: list.splits)
  then have t: "length t < length s"
    by (rule skip_ws_rest)
  consider (str) "c = CHR 0x22" | (arr) "c \<noteq> CHR 0x22" "c = CHR ''[''"
    | (obj) "c \<noteq> CHR 0x22" "c \<noteq> CHR ''[''" "c = CHR ''{''"
    | (lit) "c \<noteq> CHR 0x22" "c \<noteq> CHR ''[''" "c \<noteq> CHR ''{''"
    by blast
  then show ?case
  proof cases
    case str
    with "1.prems" c obtain x where "parse_chars t = Inr (x, r)"
      by (subst (asm) parse_value.simps) (auto split: sum.splits)
    then have "length r < length t"
      by (rule parse_chars_rest)
    with t show ?thesis by simp
  next
    case arr
    with "1.prems" c obtain d t' where d: "skip_ws t = d # t'"
      by (subst (asm) parse_value.simps) (auto split: list.splits)
    then have t': "length t' < length t"
      by (rule skip_ws_rest)
    show ?thesis
    proof (cases "d = CHR '']''")
      case True
      with "1.prems" c arr d have "r = t'"
        by (subst (asm) parse_value.simps) simp
      with t t' show ?thesis by simp
    next
      case False
      with "1.prems" c arr d obtain m xs where "n = Suc m" "parse_elements m t = Inr (xs, r)"
        by (subst (asm) parse_value.simps) (auto split: nat.splits sum.splits)
      with c arr d False have "length r \<le> length t"
        by (intro "1.IH"(1)) auto
      with t show ?thesis by simp
    qed
  next
    case obj
    with "1.prems" c obtain d t' where d: "skip_ws t = d # t'"
      by (subst (asm) parse_value.simps) (auto split: list.splits)
    then have t': "length t' < length t"
      by (rule skip_ws_rest)
    show ?thesis
    proof (cases "d = CHR ''}''")
      case True
      with "1.prems" c obj d have "r = t'"
        by (subst (asm) parse_value.simps) simp
      with t t' show ?thesis by simp
    next
      case False
      with "1.prems" c obj d obtain m xs where "n = Suc m" "parse_members m t = Inr (xs, r)"
        by (subst (asm) parse_value.simps) (auto split: nat.splits sum.splits)
      with c obj d False have "length r \<le> length t"
        by (intro "1.IH"(2)) auto
      with t show ?thesis by simp
    qed
  next
    case lit
    with "1.prems" c have "length r \<le> length (c # t)"
      by (subst (asm) parse_value.simps)
        (auto split: option.splits dest: strip_prefix_rest scan_number_rest)
    with t show ?thesis by simp
  qed
next
  case (2 n s)
  from "2.prems" obtain v t where v: "parse_value n s = Inr (v, t)"
    by (subst (asm) parse_elements.simps) (auto split: sum.splits)
  then have t: "length t \<le> length s"
    by (rule "2.IH"(1))
  from "2.prems" v obtain c t' where c: "skip_ws t = c # t'"
    by (subst (asm) parse_elements.simps) (auto split: list.splits)
  then have t': "length t' < length t"
    by (rule skip_ws_rest)
  show ?case
  proof (cases "c = CHR '']''")
    case True
    with "2.prems" v c have "r = t'"
      by (subst (asm) parse_elements.simps) simp
    with t t' show ?thesis by simp
  next
    case False
    with "2.prems" v c obtain m xs where "c = CHR '',''" "n = Suc m"
      "parse_elements m t' = Inr (xs, r)"
      by (subst (asm) parse_elements.simps) (auto split: if_splits nat.splits sum.splits)
    with v c False have "length r \<le> length t'"
      by (intro "2.IH"(2)) auto
    with t t' show ?thesis by simp
  qed
next
  case (3 n s)
  from "3.prems" obtain q s1 where q: "skip_ws s = q # s1" "q = CHR 0x22"
    by (subst (asm) parse_members.simps) (auto split: list.splits if_splits)
  then have s1: "length s1 < length s"
    using skip_ws_rest by blast
  from "3.prems" q obtain k s2 where k: "parse_chars s1 = Inr (k, s2)"
    by (subst (asm) parse_members.simps) (auto split: sum.splits)
  then have s2: "length s2 < length s1"
    by (rule parse_chars_rest)
  from "3.prems" q k obtain col s3 where col: "skip_ws s2 = col # s3" "col = CHR '':''"
    by (subst (asm) parse_members.simps) (auto split: list.splits if_splits)
  then have s3: "length s3 < length s2"
    using skip_ws_rest by blast
  from "3.prems" q k col obtain v t where v: "parse_value n s3 = Inr (v, t)"
    by (subst (asm) parse_members.simps) (auto split: sum.splits)
  with q k col have t: "length t \<le> length s3"
    by (intro "3.IH"(1)) auto
  from "3.prems" q k col v obtain c t' where c: "skip_ws t = c # t'"
    by (subst (asm) parse_members.simps) (auto split: list.splits)
  then have t': "length t' < length t"
    by (rule skip_ws_rest)
  show ?case
  proof (cases "c = CHR ''}''")
    case True
    with "3.prems" q k col v c have "r = t'"
      by (subst (asm) parse_members.simps) simp
    with s1 s2 s3 t t' show ?thesis by simp
  next
    case False
    with "3.prems" q k col v c obtain m xs where "c = CHR '',''" "n = Suc m"
      "parse_members m t' = Inr (xs, r)"
      by (subst (asm) parse_members.simps) (auto split: if_splits nat.splits sum.splits)
    with q k col v c False have "length r \<le> length t'"
      by (intro "3.IH"(2)) auto
    with s1 s2 s3 t t' show ?thesis by simp
  qed
qed

lemma parse_not_exhausted:
  "length s \<le> n \<Longrightarrow> parse_value n s \<noteq> Inl Exhausted"
  "length s \<le> n \<Longrightarrow> parse_elements n s \<noteq> Inl Exhausted"
  "length s \<le> n \<Longrightarrow> parse_members n s \<noteq> Inl Exhausted"
proof (induction n s and n s and n s rule: parse_value_parse_elements_parse_members.induct)
  case (1 n s)
  show ?case
  proof
    assume ex: "parse_value n s = Inl Exhausted"
    then obtain c t where c: "skip_ws s = c # t"
      by (subst (asm) parse_value.simps) (auto split: list.splits)
    then have t: "length t < length s"
      by (rule skip_ws_rest)
    with "1.prems" obtain m where n: "n = Suc m" and m: "length t \<le> m"
      by (cases n) simp_all
    consider (str) "c = CHR 0x22" | (arr) "c \<noteq> CHR 0x22" "c = CHR ''[''"
      | (obj) "c \<noteq> CHR 0x22" "c \<noteq> CHR ''[''" "c = CHR ''{''"
      | (lit) "c \<noteq> CHR 0x22" "c \<noteq> CHR ''[''" "c \<noteq> CHR ''{''"
      by blast
    then show False
    proof cases
      case str
      with ex c have "parse_chars t = Inl Exhausted"
        by (subst (asm) parse_value.simps) (auto split: sum.splits)
      then show False
        by (simp add: parse_chars_not_exhausted)
    next
      case arr
      with ex c obtain d t' where d: "skip_ws t = d # t'" "d \<noteq> CHR '']''"
        by (subst (asm) parse_value.simps) (auto split: list.splits if_splits)
      with ex c arr n have "parse_elements m t = Inl Exhausted"
        by (subst (asm) parse_value.simps) (auto split: sum.splits)
      moreover from c arr d n m have "parse_elements m t \<noteq> Inl Exhausted"
        by (intro "1.IH"(1)) auto
      ultimately show False by simp
    next
      case obj
      with ex c obtain d t' where d: "skip_ws t = d # t'" "d \<noteq> CHR ''}''"
        by (subst (asm) parse_value.simps) (auto split: list.splits if_splits)
      with ex c obj n have "parse_members m t = Inl Exhausted"
        by (subst (asm) parse_value.simps) (auto split: sum.splits)
      moreover from c obj d n m have "parse_members m t \<noteq> Inl Exhausted"
        by (intro "1.IH"(2)) auto
      ultimately show False by simp
    next
      case lit
      with ex c show False
        by (subst (asm) parse_value.simps) (auto split: option.splits)
    qed
  qed
next
  case (2 n s)
  have first: "parse_value n s \<noteq> Inl Exhausted"
    using "2.prems" by (rule "2.IH"(1))
  show ?case
  proof
    assume ex: "parse_elements n s = Inl Exhausted"
    with first obtain v t where v: "parse_value n s = Inr (v, t)"
      by (subst (asm) parse_elements.simps) (auto split: sum.splits)
    then have t: "length t \<le> length s"
      by (rule parse_rest)
    from ex v obtain c t' where c: "skip_ws t = c # t'" "c \<noteq> CHR '']''" "c = CHR '',''"
      by (subst (asm) parse_elements.simps) (auto split: list.splits if_splits)
    then have t': "length t' < length t"
      using skip_ws_rest by blast
    with t "2.prems" obtain m where n: "n = Suc m" and m: "length t' \<le> m"
      by (cases n) simp_all
    from ex v c n have "parse_elements m t' = Inl Exhausted"
      by (subst (asm) parse_elements.simps) (auto split: sum.splits)
    moreover from v c n m have "parse_elements m t' \<noteq> Inl Exhausted"
      by (intro "2.IH"(2)) auto
    ultimately show False by simp
  qed
next
  case (3 n s)
  show ?case
  proof
    assume ex: "parse_members n s = Inl Exhausted"
    then obtain q s1 where q: "skip_ws s = q # s1" "\<not> q \<noteq> CHR 0x22"
      by (subst (asm) parse_members.simps) (auto split: list.splits if_splits)
    then have s1: "length s1 < length s"
      using skip_ws_rest by blast
    from ex q obtain k s2 where k: "parse_chars s1 = Inr (k, s2)"
      by (subst (asm) parse_members.simps)
        (auto split: sum.splits simp: parse_chars_not_exhausted)
    then have s2: "length s2 < length s1"
      by (rule parse_chars_rest)
    from ex q k obtain col s3 where col: "skip_ws s2 = col # s3" "\<not> col \<noteq> CHR '':''"
      by (subst (asm) parse_members.simps) (auto split: list.splits if_splits)
    then have s3: "length s3 < length s2"
      using skip_ws_rest by blast
    have "parse_value n s3 \<noteq> Inl Exhausted"
      using q k col s1 s2 s3 "3.prems" by (intro "3.IH"(1)) auto
    with ex q k col obtain v t where v: "parse_value n s3 = Inr (v, t)"
      by (subst (asm) parse_members.simps) (auto split: sum.splits)
    then have t: "length t \<le> length s3"
      by (rule parse_rest)
    from ex q k col v obtain c t' where c: "skip_ws t = c # t'" "c \<noteq> CHR ''}''" "c = CHR '',''"
      by (subst (asm) parse_members.simps) (auto split: list.splits if_splits)
    then have t': "length t' < length t"
      using skip_ws_rest by blast
    with t s1 s2 s3 "3.prems" obtain m where n: "n = Suc m" and m: "length t' \<le> m"
      by (cases n) simp_all
    from ex q k col v c n have "parse_members m t' = Inl Exhausted"
      by (subst (asm) parse_members.simps) (auto split: sum.splits)
    moreover from q k col v c n m have "parse_members m t' \<noteq> Inl Exhausted"
      by (intro "3.IH"(2)) auto
    ultimately show False by simp
  qed
qed

lemma JSON_parse_fuel: "parse_value (length s) s \<noteq> Inl Exhausted"
  by (rule parse_not_exhausted) simp

lemma JSON_parse_Unmodelled:
  "JSON_parse s = Inl Unmodelled \<longleftrightarrow> parse_value (length s) s = Inl Beyond_Latin1"
proof (cases "parse_value (length s) s")
  case (Inl e)
  then have "e \<noteq> Exhausted"
    using JSON_parse_fuel [of s] by auto
  with Inl show ?thesis
    by (cases e) (simp_all add: JSON_parse_def)
next
  case (Inr p)
  then show ?thesis
    by (cases p) (simp add: JSON_parse_def)
qed

section \<open>Properties of the persistence\<close>

lemma property_order_field_keys:
  "property_order [''id'', ''type'', ''label'']"
  "property_order [''id'', ''type'', ''label'', ''options'']"
  "property_order [''id'', ''title'', ''fields'']"
  "property_order [''id'', ''name'', ''sections'']"
  by (simp_all add: property_order_def key_before_def is_array_index_def is_digit_def)

lemma storable_field: "storable (json_of_field f)"
  by (cases "field_options f") (simp_all add: json_of_field_def property_order_field_keys)

lemma storable_section: "storable (json_of_section s)"
  by (simp add: json_of_section_def property_order_field_keys storable_field)

lemma storable_template: "storable (json_of_template t)"
  by (simp add: json_of_template_def property_order_field_keys storable_section)

lemma storable_templates: "storable (json_of_templates ts)"
  by (simp add: json_of_templates_def storable_template)

lemma inj_json_of_field: "inj json_of_field"
proof (rule injI)
  fix f g :: Field
  assume "json_of_field f = json_of_field g"
  then have "field_id f = field_id g" "field_type f = field_type g"
    "field_label f = field_label g" "field_options f = field_options g"
    by (auto simp: json_of_field_def inj_map_eq_map inj_def split: option.splits)
  then show "f = g"
    by simp
qed

lemma inj_json_of_section: "inj json_of_section"
proof (rule injI)
  fix s t :: Section
  assume "json_of_section s = json_of_section t"
  then have "section_id s = section_id t" "section_title s = section_title t"
    "section_fields s = section_fields t"
    by (simp_all add: json_of_section_def inj_map_eq_map [OF inj_json_of_field])
  then show "s = t"
    by simp
qed

lemma inj_json_of_template: "inj json_of_template"
proof (rule injI)
  fix s t :: Template
  assume "json_of_template s = json_of_template t"
  then have "template_id s = template_id t" "template_name s = template_name t"
    "template_sections s = template_sections t"
    by (simp_all add: json_of_template_def inj_map_eq_map [OF inj_json_of_section])
  then show "s = t"
    by simp
qed

lemma json_of_templates_eq_iff: "json_of_templates ts' = json_of_templates ts \<longleftrightarrow> ts' = ts"
  by (simp add: json_of_templates_def inj_map_eq_map [OF inj_json_of_template])

lemma load_persisted:
  "load_templates (persist_templates ts st) = Inr (json_of_templates ts)"
proof -
  have "JSON_stringify (json_of_templates ts) \<noteq> []"
    by (simp add: json_of_templates_def)
  moreover have "JSON_parse (JSON_stringify (json_of_templates ts)) = Inr (json_of_templates ts)"
    by (rule JSON_parse_stringify) (rule storable_templates)
  ultimately show ?thesis
    by (simp add: load_templates_def persist_templates_def)
qed

lemma load_templates_absent:
  "st ''templates'' = None \<or> st ''templates'' = Some [] \<Longrightarrow> load_templates st = Inr (JArray [])"
  by (auto simp: load_templates_def)

lemma load_templates_written:
  assumes "storable v" and "st ''templates'' = Some (JSON_stringify v)"
  shows "load_templates st = Inr v"
proof -
  from assms(1) have "JSON_stringify v \<noteq> []"
    using stringify_head by fastforce
  with assms show ?thesis
    by (simp add: load_templates_def JSON_parse_stringify)
qed

lemma load_templates_present:
  "st ''templates'' = Some stored \<Longrightarrow> stored \<noteq> [] \<Longrightarrow> load_templates st = JSON_parse stored"
  by (simp add: load_templates_def)

lemma load_templates_throws:
  "load_templates st = Inl e \<Longrightarrow>
   \<exists>stored. st ''templates'' = Some stored \<and> stored \<noteq> [] \<and> JSON_parse stored = Inl e"
  by (auto simp: load_templates_def split: option.splits if_splits)

lemma read_submissions_absent:
  "st key = None \<or> st key = Some [] \<Longrightarrow> read_submissions st key = Inr (JArray [])"
proof -
  have "JSON_parse ''[]'' = Inr (JArray [])"
    using JSON_parse_stringify [of "JArray []"] by simp
  then show "st key = None \<or> st key = Some [] \<Longrightarrow> read_submissions st key = Inr (JArray [])"
    by (auto simp: read_submissions_def)
qed

lemma read_submissions_written:
  assumes "storable v" and "st key = Some (JSON_stringify v)"
  shows "read_submissions st key = Inr v"
proof -
  from assms(1) have "JSON_stringify v \<noteq> []"
    using stringify_head by fastforce
  with assms show ?thesis
    by (simp add: read_submissions_def JSON_parse_stringify)
qed

lemma read_submissions_present:
  "st key = Some stored \<Longrightarrow> stored \<noteq> [] \<Longrightarrow> read_submissions st key = JSON_parse stored"
  by (simp add: read_submissions_def)

lemma read_submissions_throws:
  assumes "read_submissions st key = Inl e"
  shows "\<exists>stored. st key = Some stored \<and> stored \<noteq> [] \<and> JSON_parse stored = Inl e"
proof (cases "st key = None \<or> st key = Some []")
  case True
  then show ?thesis
    using assms read_submissions_absent [of st key] by simp
next
  case False
  then show ?thesis
    using assms by (auto simp: read_submissions_def)
qed

lemma read_submissions_log:
  assumes "\<forall>e \<in> set log. storable e"
    and "st key = Some (JSON_stringify (JArray log)) \<or> (st key = None \<and> log = [])"
  shows "read_submissions st key = Inr (JArray log)"
  using assms read_submissions_written [of "JArray log" st key] read_submissions_absent [of st key]
  by auto

text \<open>
  The answers of the form start as the empty object and change by \<open>handleChange\<close> only,
  with the string of an input or the boolean of a checkbox: they are always storable.
\<close>

lemma handleChange_storable:
  assumes "storable (JObject (formData d))" and "storable v"
  shows "storable (JObject (formData (handleChange f v d)))"
proof -
  from assms(1) have "property_order (map fst (js_put f v (formData d)))"
    by (simp add: property_order_js_put)
  moreover have "storable x" if "x \<in> snd ` set (js_put f v (formData d))" for x
  proof -
    from that have "x = v \<or> x \<in> snd ` set (formData d)"
      using values_js_put [of f v "formData d"] by auto
    with assms show ?thesis
      by auto
  qed
  ultimately show ?thesis
    by (force simp: handleChange_def)
qed

section \<open>The claims\<close>

text \<open>
  Claim C1. ``Create New Template'' on a state that holds five or more templates leaves
  the state as it is. On a state with fewer than five it appends exactly one template,
  with the first generated identifier, the name \<open>Template n+1\<close> and one section (the
  second generated identifier, the title \<open>Section 1\<close>, no fields), and selects it. From a
  state with at most five templates no sequence of events of the builder page leads to
  more than five, and so none does from the state of a first visit.
\<close>

theorem createTemplate_bound:
  "(5 \<le> length (templates b) \<longrightarrow> createTemplate u1 u2 b = b)
   \<and> (length (templates b) < 5 \<longrightarrow>
        (\<exists>t. templates (createTemplate u1 u2 b) = templates b @ [t]
           \<and> currentTemplate (createTemplate u1 u2 b) = Some t
           \<and> template_id t = u1
           \<and> template_name t = ''Template '' @ decimal (length (templates b) + 1)
           \<and> template_sections t =
               [\<lparr>section_id = u2, section_title = ''Section 1'', section_fields = []\<rparr>]))
   \<and> (length (templates b) \<le> 5 \<longrightarrow> length (templates (run es b)) \<le> 5)
   \<and> length (templates (run es first_visit)) \<le> 5"
  by (simp add: createTemplate_def Let_def run_length_le first_visit_def)

text \<open>
  The three parts at work: the sixth press after five changes nothing, the first press on
  the empty state appends and selects \<open>Template 1\<close>, and six presses leave at most five
  templates.
\<close>

theorem createTemplate_bound_witness:
  "createTemplate ''k1'' ''k2''
      (run [CreateTemplate ''a1'' ''a2'', CreateTemplate ''b1'' ''b2'', CreateTemplate ''c1'' ''c2'',
            CreateTemplate ''d1'' ''d2'', CreateTemplate ''e1'' ''e2''] first_visit)
    = run [CreateTemplate ''a1'' ''a2'', CreateTemplate ''b1'' ''b2'', CreateTemplate ''c1'' ''c2'',
           CreateTemplate ''d1'' ''d2'', CreateTemplate ''e1'' ''e2''] first_visit
   \<and> (\<exists>t. templates (createTemplate ''a1'' ''a2'' first_visit) = [t]
          \<and> currentTemplate (createTemplate ''a1'' ''a2'' first_visit) = Some t
          \<and> template_name t = ''Template 1'')
   \<and> length (templates
        (run [CreateTemplate ''a1'' ''a2'', CreateTemplate ''b1'' ''b2'', CreateTemplate ''c1'' ''c2'',
              CreateTemplate ''d1'' ''d2'', CreateTemplate ''e1'' ''e2'', CreateTemplate ''f1'' ''f2'']
           first_visit)) \<le> 5"
proof -
  let ?five = "[CreateTemplate ''a1'' ''a2'', CreateTemplate ''b1'' ''b2'', CreateTemplate ''c1'' ''c2'',
            CreateTemplate ''d1'' ''d2'', CreateTemplate ''e1'' ''e2'']"
  have five: "length (templates (run ?five first_visit)) = 5"
    by (simp add: first_visit_def dispatch_def offered_def handle_def createTemplate_def Let_def)
  have none: "templates first_visit = []"
    by (simp add: first_visit_def)
  have one: "decimal (Suc 0) = ''1''"
    by (simp add: decimal.simps digit_char_def)
  show ?thesis
    using createTemplate_bound [of "run ?five first_visit" "''k1''" "''k2''" "[]"]
      createTemplate_bound [of first_visit "''a1''" "''a2''" "?five @ [CreateTemplate ''f1'' ''f2'']"]
      five none one
    by auto
qed

text \<open>
  Claim C2. While a template is selected, a section change at a position of its section
  array, and ``Add Section'', give the selected template the new section array and give
  every entry of the template set with the identifier of the selected template the same
  array; identifier and name of both stay, entries with another identifier stay as they
  are, and an entry that was equal to the selected template is equal to it afterwards.
  When the selected template is an entry of the set, the selected template is an entry of
  the set after every sequence of events of the builder page.
\<close>

theorem section_edit_dual_update:
  assumes "currentTemplate b = Some cur"
  shows
    "(index < length (template_sections cur) \<longrightarrow>
       (\<exists>b' cur'. updateSection index updated b = Inr b'
          \<and> currentTemplate b' = Some cur'
          \<and> template_sections cur' = (template_sections cur)[index := updated]
          \<and> template_id cur' = template_id cur \<and> template_name cur' = template_name cur
          \<and> length (templates b') = length (templates b)
          \<and> (\<forall>k < length (templates b).
                (template_id (templates b ! k) = template_id cur \<longrightarrow>
                   template_sections (templates b' ! k) = template_sections cur'
                   \<and> template_id (templates b' ! k) = template_id cur'
                   \<and> template_name (templates b' ! k) = template_name (templates b ! k))
                \<and> (template_id (templates b ! k) \<noteq> template_id cur \<longrightarrow>
                     templates b' ! k = templates b ! k)
                \<and> (templates b ! k = cur \<longrightarrow> templates b' ! k = cur'))))
     \<and> (\<exists>b' cur'. addSection u b = Inr b'
          \<and> currentTemplate b' = Some cur'
          \<and> template_sections cur' =
               template_sections cur @ [\<lparr>section_id = u, section_title = [], section_fields = []\<rparr>]
          \<and> template_id cur' = template_id cur \<and> template_name cur' = template_name cur
          \<and> length (templates b') = length (templates b)
          \<and> (\<forall>k < length (templates b).
                (template_id (templates b ! k) = template_id cur \<longrightarrow>
                   template_sections (templates b' ! k) = template_sections cur'
                   \<and> template_id (templates b' ! k) = template_id cur'
                   \<and> template_name (templates b' ! k) = template_name (templates b ! k))
                \<and> (template_id (templates b ! k) \<noteq> template_id cur \<longrightarrow>
                     templates b' ! k = templates b ! k)
                \<and> (templates b ! k = cur \<longrightarrow> templates b' ! k = cur')))
     \<and> (cur \<in> set (templates b) \<longrightarrow>
          (\<forall>es c. currentTemplate (run es b) = Some c \<longrightarrow> c \<in> set (templates (run es b))))"
proof -
  have "\<forall>c. currentTemplate (run es b) = Some c \<longrightarrow> c \<in> set (templates (run es b))"
    if "cur \<in> set (templates b)" for es
    using that assms by (intro run_selected_member) simp
  then show ?thesis
    using assms
    by (simp add: updateSection_in_range addSection_selected setSections_current
        setSections_length setSections_nth)
qed

text \<open>
  A set of two templates with the first one selected: after the change the first entry is
  the selected template and the second entry is untouched.
\<close>

theorem section_edit_dual_update_witness:
  "\<exists>b' cur'.
     updateSection 0 \<lparr>section_id = ''s1'', section_title = ''Contact'', section_fields = []\<rparr>
       \<lparr>templates =
          [\<lparr>template_id = ''t1'', template_name = ''Template 1'',
            template_sections =
              [\<lparr>section_id = ''s1'', section_title = ''Section 1'', section_fields = []\<rparr>]\<rparr>,
           \<lparr>template_id = ''t2'', template_name = ''Template 2'', template_sections = []\<rparr>],
        currentTemplate =
          Some \<lparr>template_id = ''t1'', template_name = ''Template 1'',
                template_sections =
                  [\<lparr>section_id = ''s1'', section_title = ''Section 1'', section_fields = []\<rparr>]\<rparr>\<rparr>
       = Inr b'
     \<and> currentTemplate b' = Some cur'
     \<and> templates b' ! 0 = cur'
     \<and> template_sections cur' =
          [\<lparr>section_id = ''s1'', section_title = ''Contact'', section_fields = []\<rparr>]
     \<and> templates b' ! 1 =
          \<lparr>template_id = ''t2'', template_name = ''Template 2'', template_sections = []\<rparr>"
  using section_edit_dual_update [of
      "\<lparr>templates =
          [\<lparr>template_id = ''t1'', template_name = ''Template 1'',
            template_sections =
              [\<lparr>section_id = ''s1'', section_title = ''Section 1'', section_fields = []\<rparr>]\<rparr>,
           \<lparr>template_id = ''t2'', template_name = ''Template 2'', template_sections = []\<rparr>],
        currentTemplate =
          Some \<lparr>template_id = ''t1'', template_name = ''Template 1'',
                template_sections =
                  [\<lparr>section_id = ''s1'', section_title = ''Section 1'', section_fields = []\<rparr>]\<rparr>\<rparr>"
      "\<lparr>template_id = ''t1'', template_name = ''Template 1'',
        template_sections =
          [\<lparr>section_id = ''s1'', section_title = ''Section 1'', section_fields = []\<rparr>]\<rparr>"
      0 "\<lparr>section_id = ''s1'', section_title = ''Contact'', section_fields = []\<rparr>" "''s2''"]
  by (auto simp: less_Suc_eq)

text \<open>
  Claim C3 as stated fails: a stored text that is not JSON makes both load operations throw
  the \<open>SyntaxError\<close> of \<^verbatim>\<open>JSON.parse\<close>; neither catches it.
\<close>

theorem load_corrupt_counterexample:
  "load_templates (map_of [(''templates'', ''{oops'')]) = Inl SyntaxError
   \<and> read_submissions (map_of [(''form_data_t1'', ''{oops'')]) ''form_data_t1'' = Inl SyntaxError"
  by (simp add: load_templates_def read_submissions_def JSON_parse_def parse_value.simps
      parse_members.simps skip_ws_def is_ws_def)

text \<open>
  Claim C3, amended. For a missing key and for an empty stored string both load operations
  return the empty array and do not throw. For every other stored text they return what
  \<^verbatim>\<open>JSON.parse\<close> returns for it and throw what it throws: a corrupt text makes the
  \<open>SyntaxError\<close> reach the caller, and a text written by \<^verbatim>\<open>JSON.stringify\<close> from a storable
  value is returned as that value. A load operation throws in no other case.
\<close>

theorem load_fallback:
  "(st ''templates'' = None \<or> st ''templates'' = Some [] \<longrightarrow>
      load_templates st = Inr (JArray []))
   \<and> (st key = None \<or> st key = Some [] \<longrightarrow> read_submissions st key = Inr (JArray []))
   \<and> (\<forall>stored. st ''templates'' = Some stored \<and> stored \<noteq> [] \<longrightarrow>
          load_templates st = JSON_parse stored)
   \<and> (\<forall>stored. st key = Some stored \<and> stored \<noteq> [] \<longrightarrow>
          read_submissions st key = JSON_parse stored)
   \<and> (\<forall>stored e. st ''templates'' = Some stored \<and> stored \<noteq> [] \<and> JSON_parse stored = Inl e \<longrightarrow>
          load_templates st = Inl e)
   \<and> (\<forall>stored e. st key = Some stored \<and> stored \<noteq> [] \<and> JSON_parse stored = Inl e \<longrightarrow>
          read_submissions st key = Inl e)
   \<and> (\<forall>v. storable v \<and> st ''templates'' = Some (JSON_stringify v) \<longrightarrow>
          load_templates st = Inr v)
   \<and> (\<forall>v. storable v \<and> st key = Some (JSON_stringify v) \<longrightarrow> read_submissions st key = Inr v)
   \<and> (\<forall>e. load_templates st = Inl e \<longrightarrow>
          (\<exists>stored. st ''templates'' = Some stored \<and> stored \<noteq> [] \<and> JSON_parse stored = Inl e))
   \<and> (\<forall>e. read_submissions st key = Inl e \<longrightarrow>
          (\<exists>stored. st key = Some stored \<and> stored \<noteq> [] \<and> JSON_parse stored = Inl e))"
proof -
  have present: "\<forall>stored. st ''templates'' = Some stored \<and> stored \<noteq> [] \<longrightarrow>
      load_templates st = JSON_parse stored"
    "\<forall>stored. st key = Some stored \<and> stored \<noteq> [] \<longrightarrow> read_submissions st key = JSON_parse stored"
    using load_templates_present [of st] read_submissions_present [of st key] by blast+
  then have thrown: "\<forall>stored e. st ''templates'' = Some stored \<and> stored \<noteq> [] \<and> JSON_parse stored = Inl e
      \<longrightarrow> load_templates st = Inl e"
    "\<forall>stored e. st key = Some stored \<and> stored \<noteq> [] \<and> JSON_parse stored = Inl e
      \<longrightarrow> read_submissions st key = Inl e"
    by auto
  have absent: "st ''templates'' = None \<or> st ''templates'' = Some [] \<longrightarrow>
      load_templates st = Inr (JArray [])"
    "st key = None \<or> st key = Some [] \<longrightarrow> read_submissions st key = Inr (JArray [])"
    using load_templates_absent [of st] read_submissions_absent [of st key] by blast+
  have written: "\<forall>v. storable v \<and> st ''templates'' = Some (JSON_stringify v) \<longrightarrow>
      load_templates st = Inr v"
    "\<forall>v. storable v \<and> st key = Some (JSON_stringify v) \<longrightarrow> read_submissions st key = Inr v"
    using load_templates_written [of _ st] read_submissions_written [of _ st key] by blast+
  have only: "\<forall>e. load_templates st = Inl e \<longrightarrow>
      (\<exists>stored. st ''templates'' = Some stored \<and> stored \<noteq> [] \<and> JSON_parse stored = Inl e)"
    "\<forall>e. read_submissions st key = Inl e \<longrightarrow>
      (\<exists>stored. st key = Some stored \<and> stored \<noteq> [] \<and> JSON_parse stored = Inl e)"
    using load_templates_throws [of st] read_submissions_throws [of st key] by blast+
  show ?thesis
    by (intro conjI absent present thrown written only)
qed

text \<open>
  An empty storage, a key holding the empty string, a key holding a written array, and
  keys holding a text that is cut off.
\<close>

theorem load_fallback_witness:
  \<open>load_templates (map_of []) = Inr (JArray [])
   \<and> read_submissions (map_of [(''form_data_t1'', [])]) ''form_data_t1'' = Inr (JArray [])
   \<and> load_templates (map_of [(''templates'', ''["a",true]'')])
       = Inr (JArray [JString ''a'', JBool True])
   \<and> load_templates (map_of [(''templates'', ''[tru'')]) = Inl SyntaxError
   \<and> read_submissions (map_of [(''form_data_t1'', ''[tru'')]) ''form_data_t1'' = Inl SyntaxError\<close>
proof -
  have corrupt: "JSON_parse ''[tru'' = Inl SyntaxError"
    by (simp add: JSON_parse_def parse_value.simps parse_elements.simps skip_ws_def is_ws_def
        strip_prefix_def scan_number_def scan_minus_def scan_int_def is_digit_def)
  have written: \<open>JSON_stringify (JArray [JString ''a'', JBool True]) = ''["a",true]''\<close>
    by (simp add: quote_def quote_char_def)
  have "load_templates (map_of []) = Inr (JArray [])"
    using load_fallback [of "map_of []" "''k''"] by simp
  moreover have "read_submissions (map_of [(''form_data_t1'', [])]) ''form_data_t1''
      = Inr (JArray [])"
    using load_fallback [of "map_of [(''form_data_t1'', [])]" "''form_data_t1''"] by simp
  moreover have \<open>load_templates (map_of [(''templates'', ''["a",true]'')])
      = Inr (JArray [JString ''a'', JBool True])\<close>
  proof -
    have "\<forall>v. storable v
        \<and> map_of [(''templates'', JSON_stringify (JArray [JString ''a'', JBool True]))] ''templates''
            = Some (JSON_stringify v)
        \<longrightarrow> load_templates
              (map_of [(''templates'', JSON_stringify (JArray [JString ''a'', JBool True]))])
            = Inr v"
      using load_fallback [of
          "map_of [(''templates'', JSON_stringify (JArray [JString ''a'', JBool True]))]" "''k''"]
      by (elim conjE)
    then have "load_templates
        (map_of [(''templates'', JSON_stringify (JArray [JString ''a'', JBool True]))])
        = Inr (JArray [JString ''a'', JBool True])"
      by (rule allE [of _ "JArray [JString ''a'', JBool True]"]) simp
    then show ?thesis
      by (simp only: written)
  qed
  moreover have "load_templates (map_of [(''templates'', ''[tru'')]) = Inl SyntaxError
      \<and> read_submissions (map_of [(''form_data_t1'', ''[tru'')]) ''form_data_t1''
          = Inl SyntaxError"
  proof -
    have first: "\<forall>stored. map_of [(''templates'', ''[tru'')] ''templates'' = Some stored
          \<and> stored \<noteq> [] \<longrightarrow>
          load_templates (map_of [(''templates'', ''[tru'')]) = JSON_parse stored"
      using load_fallback [of "map_of [(''templates'', ''[tru'')]" "''k''"]
      by (elim conjE)
    have second: "\<forall>stored. map_of [(''form_data_t1'', ''[tru'')] ''form_data_t1'' = Some stored
          \<and> stored \<noteq> [] \<longrightarrow>
          read_submissions (map_of [(''form_data_t1'', ''[tru'')]) ''form_data_t1''
            = JSON_parse stored"
      using load_fallback [of "map_of [(''form_data_t1'', ''[tru'')]" "''form_data_t1''"]
      by (elim conjE)
    from first have "load_templates (map_of [(''templates'', ''[tru'')]) = JSON_parse ''[tru''"
      by (rule allE [of _ "''[tru''"]) simp
    moreover from second have
      "read_submissions (map_of [(''form_data_t1'', ''[tru'')]) ''form_data_t1''
        = JSON_parse ''[tru''"
      by (rule allE [of _ "''[tru''"]) simp
    ultimately show ?thesis
      by (simp only: corrupt)
  qed
  ultimately show ?thesis
    by blast
qed

text \<open>
  Claim C4. Writing a template set under the key \<open>templates\<close> and loading it gives the
  JavaScript value of that set and of no other set: the identifier and name of every
  template, the order of its sections, the order of the fields of every section and the
  contents of every field are the ones written.
\<close>

theorem templates_roundtrip:
  "load_templates (persist_templates ts st) = Inr (json_of_templates ts)
   \<and> (\<forall>ts'. load_templates (persist_templates ts st) = Inr (json_of_templates ts')
          \<longleftrightarrow> ts' = ts)"
  by (auto simp: load_persisted json_of_templates_eq_iff)

text \<open>
  One template with one section and one \<open>enum\<close> field, written and loaded.
\<close>

theorem templates_roundtrip_witness:
  \<open>load_templates (persist_templates
      [\<lparr>template_id = ''t1'', template_name = ''Template 1'',
        template_sections =
          [\<lparr>section_id = ''s1'', section_title = ''Section 1'',
            section_fields =
              [\<lparr>field_id = ''f1'', field_type = ''enum'', field_label = ''Colour'',
                field_options = Some [''red'', ''green'']\<rparr>]\<rparr>]\<rparr>]
      (map_of []))
   = Inr (JArray
       [JObject
         [(''id'', JString ''t1''), (''name'', JString ''Template 1''),
          (''sections'', JArray
             [JObject
               [(''id'', JString ''s1''), (''title'', JString ''Section 1''),
                (''fields'', JArray
                   [JObject
                     [(''id'', JString ''f1''), (''type'', JString ''enum''),
                      (''label'', JString ''Colour''),
                      (''options'', JArray [JString ''red'', JString ''green''])]])]])]])\<close>
  using templates_roundtrip [of
      "[\<lparr>template_id = ''t1'', template_name = ''Template 1'',
        template_sections =
          [\<lparr>section_id = ''s1'', section_title = ''Section 1'',
            section_fields =
              [\<lparr>field_id = ''f1'', field_type = ''enum'', field_label = ''Colour'',
                field_options = Some [''red'', ''green'']\<rparr>]\<rparr>]\<rparr>]" "map_of []"]
  by (simp add: json_of_templates_def json_of_template_def json_of_section_def json_of_field_def)

text \<open>
  Claim C5. Let the key of the form, \<open>form_data_\<close> followed by the template identifier,
  hold the text of a log of storable submissions, or be absent with the empty log. Submitting does not throw; it stores under
  that key the text of the log with the answers as one more entry at the end, changes no
  other key, empties the in-memory answers and shows one alert; when the answers are
  storable, reading the key again gives the log followed by the answers.
\<close>

theorem handleSubmit_appends:
  assumes "\<forall>e \<in> set log. storable e"
    and "localStorage d (form_key t) = Some (JSON_stringify (JArray log))
         \<or> (localStorage d (form_key t) = None \<and> log = [])"
  shows "form_key t = ''form_data_'' @ template_id t
     \<and> (\<exists>d'. handleSubmit t d = Inr d'
     \<and> localStorage d' (form_key t)
         = Some (JSON_stringify (JArray (log @ [JObject (formData d)])))
     \<and> (\<forall>k. k \<noteq> form_key t \<longrightarrow> localStorage d' k = localStorage d k)
     \<and> formData d' = []
     \<and> alerts d' = alerts d @ [''Form submitted!'']
     \<and> (storable (JObject (formData d)) \<longrightarrow>
          read_submissions (localStorage d') (form_key t)
            = Inr (JArray (log @ [JObject (formData d)]))))"
proof -
  have prev: "read_submissions (localStorage d) (form_key t) = Inr (JArray log)"
    using assms by (rule read_submissions_log)
  have reread: "read_submissions
        ((localStorage d)(form_key t \<mapsto> JSON_stringify (JArray (log @ [JObject (formData d)]))))
        (form_key t) = Inr (JArray (log @ [JObject (formData d)]))"
    if "storable (JObject (formData d))"
    using that assms(1) by (intro read_submissions_written) simp_all
  show ?thesis
    using prev reread by (simp add: handleSubmit_def Let_def spread_def form_key_def)
qed

text \<open>
  The answers \<open>{field1: "hello"}\<close> against a template with one text field: with no
  log yet exactly that entry is stored, and after a log of one entry it is the second.
\<close>

theorem handleSubmit_appends_witness:
  \<open>(\<exists>d'. handleSubmit \<lparr>template_id = ''t1'', template_name = ''Template 1'',
                template_sections =
                  [\<lparr>section_id = ''s1'', section_title = ''Section 1'',
                    section_fields =
                      [\<lparr>field_id = ''field1'', field_type = ''text'', field_label = ''Name'',
                        field_options = None\<rparr>]\<rparr>]\<rparr>
           \<lparr>formData = [(''field1'', JString ''hello'')], localStorage = map_of [], alerts = []\<rparr>
         = Inr d'
      \<and> localStorage d' ''form_data_t1'' = Some ''[{"field1":"hello"}]''
      \<and> formData d' = []
      \<and> read_submissions (localStorage d') ''form_data_t1''
          = Inr (JArray [JObject [(''field1'', JString ''hello'')]]))
   \<and> (\<exists>d'. handleSubmit \<lparr>template_id = ''t1'', template_name = ''Template 1'',
                template_sections =
                  [\<lparr>section_id = ''s1'', section_title = ''Section 1'',
                    section_fields =
                      [\<lparr>field_id = ''field1'', field_type = ''text'', field_label = ''Name'',
                        field_options = None\<rparr>]\<rparr>]\<rparr>
           \<lparr>formData = [(''field1'', JString ''hello'')],
            localStorage = map_of [(''form_data_t1'', ''[{"field1":"hi"}]'')], alerts = []\<rparr>
         = Inr d'
      \<and> localStorage d' ''form_data_t1'' = Some ''[{"field1":"hi"},{"field1":"hello"}]''
      \<and> formData d' = []
      \<and> read_submissions (localStorage d') ''form_data_t1''
          = Inr (JArray [JObject [(''field1'', JString ''hi'')],
                         JObject [(''field1'', JString ''hello'')]]))\<close>
  using handleSubmit_appends [of "[]"
      "\<lparr>formData = [(''field1'', JString ''hello'')], localStorage = map_of [], alerts = []\<rparr>"
      "\<lparr>template_id = ''t1'', template_name = ''Template 1'',
                template_sections =
                  [\<lparr>section_id = ''s1'', section_title = ''Section 1'',
                    section_fields =
                      [\<lparr>field_id = ''field1'', field_type = ''text'', field_label = ''Name'',
                        field_options = None\<rparr>]\<rparr>]\<rparr>"]
    handleSubmit_appends [of "[JObject [(''field1'', JString ''hi'')]]"
      \<open>\<lparr>formData = [(''field1'', JString ''hello'')],
        localStorage = map_of [(''form_data_t1'', ''[{"field1":"hi"}]'')], alerts = []\<rparr>\<close>
      "\<lparr>template_id = ''t1'', template_name = ''Template 1'',
                template_sections =
                  [\<lparr>section_id = ''s1'', section_title = ''Section 1'',
                    section_fields =
                      [\<lparr>field_id = ''field1'', field_type = ''text'', field_label = ''Name'',
                        field_options = None\<rparr>]\<rparr>]\<rparr>"]
  by (auto simp: form_key_def property_order_def quote_def quote_char_def)

text \<open>
  Claim C6. ``Add Field'' puts one new field after the fields of the section, which stay as
  they are and in their order; identifier and title of the section stay. The type of the
  new field is \<open>text\<close>, its label is empty, it has no options, and its identifier is the
  one that this call of \<^verbatim>\<open>uuid()\<close> returns: no earlier call has returned it and no other
  call returns it. So it differs from every identifier of a field of the section when
  those were issued before, and then distinct identifiers stay distinct, under this press
  and under every sequence of events of the section editor. In a section that starts
  without fields, as every section does, the identifiers of the fields are distinct after
  every such sequence.
\<close>

theorem onClick_AddField_appends_fresh:
  "section_fields (fst (onClick_AddField s g)) =
     section_fields s
       @ [\<lparr>field_id = fst (uuid g), field_type = ''text'', field_label = [],
           field_options = None\<rparr>]
   \<and> section_id (fst (onClick_AddField s g)) = section_id s
   \<and> section_title (fst (onClick_AddField s g)) = section_title s
   \<and> snd (onClick_AddField s g) = snd (uuid g)
   \<and> fst (uuid g) \<notin> issued g
   \<and> issued (snd (uuid g)) = insert (fst (uuid g)) (issued g)
   \<and> (\<forall>h. h \<noteq> g \<longrightarrow> fst (uuid h) \<noteq> fst (uuid g))
   \<and> (field_id ` set (section_fields s) \<subseteq> issued g \<longrightarrow>
        fst (uuid g) \<notin> field_id ` set (section_fields s)
        \<and> (distinct (map field_id (section_fields s)) \<longrightarrow>
             distinct (map field_id (section_fields (fst (onClick_AddField s g))))
             \<and> distinct (map field_id (section_fields (fst (section_run es (s, g)))))
             \<and> field_id ` set (section_fields (fst (section_run es (s, g))))
                 \<subseteq> issued (snd (section_run es (s, g)))))
   \<and> (section_fields s = [] \<longrightarrow>
        distinct (map field_id (section_fields (fst (section_run es (s, g)))))
        \<and> field_id ` set (section_fields (fst (section_run es (s, g))))
            \<subseteq> issued (snd (section_run es (s, g))))"
proof -
  have frame: "section_id (fst (onClick_AddField s g)) = section_id s"
    "section_title (fst (onClick_AddField s g)) = section_title s"
    by (simp_all add: onClick_AddField_def addField_def split: prod.splits)
  have unique: "\<forall>h. h \<noteq> g \<longrightarrow> fst (uuid h) \<noteq> fst (uuid g)"
    using uuid_inj by blast
  have fresh: "fst (uuid g) \<notin> field_id ` set (section_fields s)"
    if "field_id ` set (section_fields s) \<subseteq> issued g"
    using that uuid_fresh [of g] by auto
  have kept: "distinct (map field_id (section_fields (fst (section_run es (s, g)))))
      \<and> field_id ` set (section_fields (fst (section_run es (s, g))))
          \<subseteq> issued (snd (section_run es (s, g)))"
    if "field_id ` set (section_fields s) \<subseteq> issued g"
      and "distinct (map field_id (section_fields s))"
    using section_run_ids [of "(s, g)" es] that by simp
  have start: "distinct (map field_id (section_fields (fst (section_run es (s, g)))))
      \<and> field_id ` set (section_fields (fst (section_run es (s, g))))
          \<subseteq> issued (snd (section_run es (s, g)))"
    if "section_fields s = []"
    using section_run_ids [of "(s, g)" es] that by simp
  show ?thesis
    using frame unique fresh kept start
    by (simp add: onClick_AddField_fields onClick_AddField_generator uuid_fresh issued_uuid
        onClick_AddField_distinct)
qed

text \<open>
  A section whose one field has the first identifier gets a second field with the second
  identifier; adding, deleting and adding again, with a call of \<^verbatim>\<open>uuid()\<close> elsewhere in
  between, leaves distinct identifiers.
\<close>

theorem onClick_AddField_appends_fresh_witness:
  "section_fields (fst (onClick_AddField
      \<lparr>section_id = ''s'', section_title = ''Section 1'',
       section_fields = [\<lparr>field_id = ''0'', field_type = ''enum'', field_label = ''Colour'',
                          field_options = Some [''red'']\<rparr>]\<rparr> (Suc 0)))
    = [\<lparr>field_id = ''0'', field_type = ''enum'', field_label = ''Colour'',
         field_options = Some [''red'']\<rparr>,
       \<lparr>field_id = ''1'', field_type = ''text'', field_label = [], field_options = None\<rparr>]
   \<and> ''1'' \<notin> issued (Suc 0)
   \<and> distinct (map field_id (section_fields (fst (section_run
        [AddField_click, Uuid_elsewhere, AddField_click, Delete_click 0, AddField_click]
        (\<lparr>section_id = ''s'', section_title = ''Section 1'',
          section_fields = [\<lparr>field_id = ''0'', field_type = ''enum'', field_label = ''Colour'',
                             field_options = Some [''red'']\<rparr>]\<rparr>, Suc 0)))))
   \<and> distinct (map field_id (section_fields (fst (section_run
        [AddField_click, Uuid_elsewhere, AddField_click, Delete_click 0, AddField_click]
        (\<lparr>section_id = ''s'', section_title = ''Section 1'', section_fields = []\<rparr>, 0)))))"
proof -
  have one: "uuid (Suc 0) = (''1'', Suc (Suc 0))"
    by (simp add: uuid_def decimal.simps digit_char_def)
  have before: "issued (Suc 0) = {''0''}"
    by (simp add: issued_def uuid_def decimal.simps digit_char_def)
  show ?thesis
    using onClick_AddField_appends_fresh [of
        "\<lparr>section_id = ''s'', section_title = ''Section 1'',
          section_fields = [\<lparr>field_id = ''0'', field_type = ''enum'', field_label = ''Colour'',
                             field_options = Some [''red'']\<rparr>]\<rparr>" "Suc 0"
        "[AddField_click, Uuid_elsewhere, AddField_click, Delete_click 0, AddField_click]"]
      onClick_AddField_appends_fresh [of
        "\<lparr>section_id = ''s'', section_title = ''Section 1'', section_fields = []\<rparr>" 0
        "[AddField_click, Uuid_elsewhere, AddField_click, Delete_click 0, AddField_click]"]
      one before
    by simp
qed

text \<open>
  Claim C7. Deleting at a position \<open>i\<close> below the number \<open>n\<close> of fields leaves \<open>n - 1\<close>
  fields: those before \<open>i\<close> at their positions, those after \<open>i\<close> one position earlier.
  Identifier and title of the section stay.
\<close>

theorem deleteField_removes_one:
  assumes "i < length (section_fields s)"
  shows "length (section_fields (deleteField i s)) = length (section_fields s) - 1
    \<and> (\<forall>j < i. section_fields (deleteField i s) ! j = section_fields s ! j)
    \<and> (\<forall>j. i \<le> j \<and> j < length (section_fields s) - 1 \<longrightarrow>
          section_fields (deleteField i s) ! j = section_fields s ! Suc j)
    \<and> section_id (deleteField i s) = section_id s
    \<and> section_title (deleteField i s) = section_title s"
  using assms
  by (simp add: deleteField_def Array_splice_one_length Array_splice_one_before
      Array_splice_one_after)

text \<open>
  Deleting the middle one of three fields.
\<close>

theorem deleteField_removes_one_witness:
  "section_fields (deleteField 1
      \<lparr>section_id = ''s1'', section_title = ''Section 1'',
       section_fields =
         [\<lparr>field_id = ''f1'', field_type = ''text'', field_label = ''a'', field_options = None\<rparr>,
          \<lparr>field_id = ''f2'', field_type = ''text'', field_label = ''b'', field_options = None\<rparr>,
          \<lparr>field_id = ''f3'', field_type = ''text'', field_label = ''c'', field_options = None\<rparr>]\<rparr>)
     ! 1
    = \<lparr>field_id = ''f3'', field_type = ''text'', field_label = ''c'', field_options = None\<rparr>
   \<and> section_fields (deleteField 1
      \<lparr>section_id = ''s1'', section_title = ''Section 1'',
       section_fields =
         [\<lparr>field_id = ''f1'', field_type = ''text'', field_label = ''a'', field_options = None\<rparr>,
          \<lparr>field_id = ''f2'', field_type = ''text'', field_label = ''b'', field_options = None\<rparr>,
          \<lparr>field_id = ''f3'', field_type = ''text'', field_label = ''c'', field_options = None\<rparr>]\<rparr>)
     ! 0
    = \<lparr>field_id = ''f1'', field_type = ''text'', field_label = ''a'', field_options = None\<rparr>
   \<and> length (section_fields (deleteField 1
      \<lparr>section_id = ''s1'', section_title = ''Section 1'',
       section_fields =
         [\<lparr>field_id = ''f1'', field_type = ''text'', field_label = ''a'', field_options = None\<rparr>,
          \<lparr>field_id = ''f2'', field_type = ''text'', field_label = ''b'', field_options = None\<rparr>,
          \<lparr>field_id = ''f3'', field_type = ''text'', field_label = ''c'', field_options = None\<rparr>]\<rparr>))
    = 2"
  using deleteField_removes_one [of 1
      "\<lparr>section_id = ''s1'', section_title = ''Section 1'',
        section_fields =
          [\<lparr>field_id = ''f1'', field_type = ''text'', field_label = ''a'', field_options = None\<rparr>,
           \<lparr>field_id = ''f2'', field_type = ''text'', field_label = ''b'', field_options = None\<rparr>,
           \<lparr>field_id = ''f3'', field_type = ''text'', field_label = ''c'', field_options = None\<rparr>]\<rparr>"]
  by simp

text \<open>
  Claim C8. Editing the title of the section at position \<open>i\<close> of the selected template
  gives that section the new title. Every other section of the template is unchanged, the
  fields and the identifier of every section, the edited one too, are unchanged, and so
  are identifier and name of the template. In the template set the entries with the
  identifier of the selected template take the same sections, the others stay.
\<close>

theorem title_edit_frame:
  assumes "currentTemplate b = Some cur" and "i < length (template_sections cur)"
  shows
    "\<exists>b' cur'. updateSection i (setTitle v (template_sections cur ! i)) b = Inr b'
       \<and> currentTemplate b' = Some cur'
       \<and> length (template_sections cur') = length (template_sections cur)
       \<and> section_title (template_sections cur' ! i) = v
       \<and> (\<forall>j < length (template_sections cur).
             (j \<noteq> i \<longrightarrow> template_sections cur' ! j = template_sections cur ! j)
             \<and> section_fields (template_sections cur' ! j)
                 = section_fields (template_sections cur ! j)
             \<and> section_id (template_sections cur' ! j) = section_id (template_sections cur ! j))
       \<and> template_id cur' = template_id cur
       \<and> template_name cur' = template_name cur
       \<and> length (templates b') = length (templates b)
       \<and> (\<forall>k < length (templates b).
             (template_id (templates b ! k) = template_id cur \<longrightarrow>
                template_sections (templates b' ! k) = template_sections cur')
             \<and> (template_id (templates b ! k) \<noteq> template_id cur \<longrightarrow>
                  templates b' ! k = templates b ! k))"
  using assms
  by (simp add: updateSection_in_range setSections_current setSections_length setSections_nth
      setTitle_def nth_list_update)

text \<open>
  A template with two sections; the first, which has a field, gets a new title.
\<close>

theorem title_edit_frame_witness:
  "\<exists>b' cur'.
     updateSection 0
       (setTitle ''Contact''
          \<lparr>section_id = ''s1'', section_title = ''Section 1'',
           section_fields =
             [\<lparr>field_id = ''f1'', field_type = ''text'', field_label = ''a'',
               field_options = None\<rparr>]\<rparr>)
       \<lparr>templates =
          [\<lparr>template_id = ''t1'', template_name = ''Template 1'',
            template_sections =
              [\<lparr>section_id = ''s1'', section_title = ''Section 1'',
                section_fields =
                  [\<lparr>field_id = ''f1'', field_type = ''text'', field_label = ''a'',
                    field_options = None\<rparr>]\<rparr>,
               \<lparr>section_id = ''s2'', section_title = ''Other'', section_fields = []\<rparr>]\<rparr>],
        currentTemplate =
          Some \<lparr>template_id = ''t1'', template_name = ''Template 1'',
            template_sections =
              [\<lparr>section_id = ''s1'', section_title = ''Section 1'',
                section_fields =
                  [\<lparr>field_id = ''f1'', field_type = ''text'', field_label = ''a'',
                    field_options = None\<rparr>]\<rparr>,
               \<lparr>section_id = ''s2'', section_title = ''Other'', section_fields = []\<rparr>]\<rparr>\<rparr>
       = Inr b'
     \<and> currentTemplate b' = Some cur'
     \<and> section_title (template_sections cur' ! 0) = ''Contact''
     \<and> section_fields (template_sections cur' ! 0) =
          [\<lparr>field_id = ''f1'', field_type = ''text'', field_label = ''a'', field_options = None\<rparr>]
     \<and> template_sections cur' ! 1 =
          \<lparr>section_id = ''s2'', section_title = ''Other'', section_fields = []\<rparr>"
  using title_edit_frame [of
      "\<lparr>templates =
          [\<lparr>template_id = ''t1'', template_name = ''Template 1'',
            template_sections =
              [\<lparr>section_id = ''s1'', section_title = ''Section 1'',
                section_fields =
                  [\<lparr>field_id = ''f1'', field_type = ''text'', field_label = ''a'',
                    field_options = None\<rparr>]\<rparr>,
               \<lparr>section_id = ''s2'', section_title = ''Other'', section_fields = []\<rparr>]\<rparr>],
        currentTemplate =
          Some \<lparr>template_id = ''t1'', template_name = ''Template 1'',
            template_sections =
              [\<lparr>section_id = ''s1'', section_title = ''Section 1'',
                section_fields =
                  [\<lparr>field_id = ''f1'', field_type = ''text'', field_label = ''a'',
                    field_options = None\<rparr>]\<rparr>,
               \<lparr>section_id = ''s2'', section_title = ''Other'', section_fields = []\<rparr>]\<rparr>\<rparr>"
      "\<lparr>template_id = ''t1'', template_name = ''Template 1'',
            template_sections =
              [\<lparr>section_id = ''s1'', section_title = ''Section 1'',
                section_fields =
                  [\<lparr>field_id = ''f1'', field_type = ''text'', field_label = ''a'',
                    field_options = None\<rparr>]\<rparr>,
               \<lparr>section_id = ''s2'', section_title = ''Other'', section_fields = []\<rparr>]\<rparr>"
      0 "''Contact''"]
  by (auto simp: less_Suc_eq)

text \<open>
  Claim C9. Changing the type of an \<open>enum\<close> field with options value \<open>v\<close> to a type other
  than \<open>enum\<close> gives a field whose options value is still \<open>v\<close>; its type is the new one,
  identifier and label stay.
\<close>

theorem setType_keeps_options:
  assumes "field_type f = ''enum''" and "field_options f = v" and "t \<noteq> ''enum''"
  shows "field_options (FieldEditor_setType t f) = v
    \<and> field_type (FieldEditor_setType t f) = t
    \<and> field_id (FieldEditor_setType t f) = field_id f
    \<and> field_label (FieldEditor_setType t f) = field_label f"
  using assms by (simp add: FieldEditor_setType_def)

text \<open>
  An \<open>enum\<close> field with two options becomes a \<open>text\<close> field with the same two options.
\<close>

theorem setType_keeps_options_witness:
  "field_options (FieldEditor_setType ''text''
      \<lparr>field_id = ''f1'', field_type = ''enum'', field_label = ''Colour'',
       field_options = Some [''red'', ''green'']\<rparr>) = Some [''red'', ''green'']"
  using setType_keeps_options [of
      "\<lparr>field_id = ''f1'', field_type = ''enum'', field_label = ''Colour'',
        field_options = Some [''red'', ''green'']\<rparr>" "Some [''red'', ''green'']" "''text''"]
  by simp

text \<open>
  Claim C10. Recording the answer \<open>v\<close> for the field \<open>f\<close> makes the entry of \<open>f\<close> in the
  answers \<open>v\<close> and leaves the entry of every other field, the storage and the alerts as
  they are.
\<close>

theorem handleChange_sets_one_answer:
  "js_get (formData (handleChange f v d)) f = Some v
   \<and> (\<forall>g. g \<noteq> f \<longrightarrow> js_get (formData (handleChange f v d)) g = js_get (formData d) g)
   \<and> localStorage (handleChange f v d) = localStorage d
   \<and> alerts (handleChange f v d) = alerts d"
  by (simp add: handleChange_def js_get_def map_of_js_put)

text \<open>
  A second answer is recorded beside a first one.
\<close>

theorem handleChange_sets_one_answer_witness:
  "js_get (formData (handleChange ''f2'' (JString ''hello'')
       \<lparr>formData = [(''f1'', JBool True)], localStorage = map_of [], alerts = []\<rparr>)) ''f2''
     = Some (JString ''hello'')
   \<and> js_get (formData (handleChange ''f2'' (JString ''hello'')
       \<lparr>formData = [(''f1'', JBool True)], localStorage = map_of [], alerts = []\<rparr>)) ''f1''
     = Some (JBool True)"
  using handleChange_sets_one_answer [of "''f2''" "JString ''hello''"
      "\<lparr>formData = [(''f1'', JBool True)], localStorage = map_of [], alerts = []\<rparr>"]
  by (simp add: js_get_def)

end
